theory Spec2Isabelle
  imports Main "HOL-Library.Word"
begin

section \<open>JavaScript strings\<close>

text \<open>
  A JavaScript string is a sequence of UTF-16 code units, and the regular expressions of
  \<^verbatim>\<open>sanitizePart\<close> (written without the \<^verbatim>\<open>u\<close> flag) work on code units: the class
  of ideographs, U+4E00 to U+9FA5, is a range of single code units. A string is therefore a list of
  16-bit words. \<open>js\<close> embeds an ASCII literal.
\<close>

type_synonym jschar = "16 word"
type_synonym jsstring = "jschar list"

definition js :: "string \<Rightarrow> jsstring" where
  "js s = map of_char s"

definition underscore :: jschar where
  "underscore = 0x5F"

definition dot :: jschar where
  "dot = 0x2E"

text \<open>\<^verbatim>\<open>s.startsWith(t)\<close>, \<^verbatim>\<open>s.endsWith(t)\<close> and \<^verbatim>\<open>s.includes(t)\<close>.\<close>

definition startsWith :: "jsstring \<Rightarrow> jsstring \<Rightarrow> bool" where
  "startsWith s t \<longleftrightarrow> take (length t) s = t"

definition endsWith :: "jsstring \<Rightarrow> jsstring \<Rightarrow> bool" where
  "endsWith s t \<longleftrightarrow> length t \<le> length s \<and> drop (length s - length t) s = t"

fun includesStr :: "jsstring \<Rightarrow> jsstring \<Rightarrow> bool" where
  "includesStr [] t = (t = [])"
| "includesStr (c # cs) t = (startsWith (c # cs) t \<or> includesStr cs t)"

text \<open>\<^verbatim>\<open>s.lastIndexOf('.')\<close>: the index of the last occurrence, \<open>None\<close> for JavaScript's -1.\<close>

fun lastIndexOf :: "jsstring \<Rightarrow> jschar \<Rightarrow> nat option" where
  "lastIndexOf [] c = None"
| "lastIndexOf (x # xs) c =
     (case lastIndexOf xs c of
        Some i \<Rightarrow> Some (Suc i)
      | None \<Rightarrow> if x = c then Some 0 else None)"

text \<open>
  The decimal rendering of a non-negative integer, as a template literal prints the loop
  counter (a JavaScript number; exact for every value a registry can force).
\<close>

definition digitChar :: "nat \<Rightarrow> jschar" where
  "digitChar d = of_nat (48 + d)"

fun decimal :: "nat \<Rightarrow> jsstring" where
  "decimal n = (if n < 10 then [digitChar n] else decimal (n div 10) @ [digitChar (n mod 10)])"

declare decimal.simps [simp del]

section \<open>The sanitizer (App.tsx, sanitizePart)\<close>

text \<open>The character class \<^verbatim>\<open>[a-zA-Z0-9]\<close> extended by the range U+4E00 to U+9FA5, and the same class with the dot.\<close>

definition isAlnumCjk :: "jschar \<Rightarrow> bool" where
  "isAlnumCjk c \<longleftrightarrow>
     (0x61 \<le> c \<and> c \<le> 0x7A) \<or> (0x41 \<le> c \<and> c \<le> 0x5A) \<or>
     (0x30 \<le> c \<and> c \<le> 0x39) \<or> (0x4E00 \<le> c \<and> c \<le> 0x9FA5)"

definition keepChar :: "bool \<Rightarrow> jschar \<Rightarrow> bool" where
  "keepChar allowDots c \<longleftrightarrow> isAlnumCjk c \<or> (allowDots \<and> c = dot)"

text \<open>\<^verbatim>\<open>str.replace(regex, '_')\<close> with the global flag: every code unit outside the class
  becomes an underscore.\<close>

definition replaceDisallowed :: "bool \<Rightarrow> jsstring \<Rightarrow> jsstring" where
  "replaceDisallowed allowDots s = map (\<lambda>c. if keepChar allowDots c then c else underscore) s"

text \<open>\<^verbatim>\<open>safe.replace(/_+/g, '_')\<close>: every maximal run of underscores becomes one.\<close>

fun collapseUnderscores :: "jsstring \<Rightarrow> jsstring" where
  "collapseUnderscores [] = []"
| "collapseUnderscores [c] = [c]"
| "collapseUnderscores (c # d # cs) =
     (if c = underscore \<and> d = underscore then collapseUnderscores (d # cs)
      else c # collapseUnderscores (d # cs))"

text \<open>
  \<^verbatim>\<open>safe.replace(/^_|_$/g, '')\<close>: one underscore is removed at the start, if there is one,
  and one at the end, if one is left there (the two matches never overlap).
\<close>

definition stripLeadingUnderscore :: "jsstring \<Rightarrow> jsstring" where
  "stripLeadingUnderscore s = (case s of [] \<Rightarrow> [] | c # cs \<Rightarrow> if c = underscore then cs else s)"

definition stripTrailingUnderscore :: "jsstring \<Rightarrow> jsstring" where
  "stripTrailingUnderscore s = (if s \<noteq> [] \<and> last s = underscore then butlast s else s)"

definition trimUnderscoreEnds :: "jsstring \<Rightarrow> jsstring" where
  "trimUnderscoreEnds s = stripTrailingUnderscore (stripLeadingUnderscore s)"

text \<open>\<^verbatim>\<open>safe.replace(/^\.+|\.+$/g, '')\<close>: the leading and the trailing run of dots go.\<close>

definition trimDots :: "jsstring \<Rightarrow> jsstring" where
  "trimDots s = rev (dropWhile (\<lambda>c. c = dot) (rev (dropWhile (\<lambda>c. c = dot) s)))"

text \<open>
  The argument is \<^verbatim>\<open>string | undefined\<close>; \<open>None\<close> is \<^verbatim>\<open>undefined\<close>. Both
  \<^verbatim>\<open>undefined\<close> and the empty string are falsy, in the first test and in the last.
\<close>

definition sanitizePart :: "jsstring option \<Rightarrow> bool \<Rightarrow> jsstring" where
  "sanitizePart str allowDots =
     (case str of
        None \<Rightarrow> js ''Unknown''
      | Some s \<Rightarrow>
          if s = [] then js ''Unknown''
          else
            let safe1 = replaceDisallowed allowDots s;
                safe2 = collapseUnderscores safe1;
                safe3 = trimUnderscoreEnds safe2;
                safe4 = (if allowDots then trimDots safe3 else safe3)
            in if safe4 = [] then js ''Unknown'' else safe4)"

text \<open>A string in which no two underscores are adjacent: what the collapsing step leaves.\<close>

fun noUnderscoreRun :: "jsstring \<Rightarrow> bool" where
  "noUnderscoreRun [] = True"
| "noUnderscoreRun [c] = True"
| "noUnderscoreRun (c # d # cs) = ((c \<noteq> underscore \<or> d \<noteq> underscore) \<and> noUnderscoreRun (d # cs))"

section \<open>Collision resolution (App.tsx, the while loop of the merge)\<close>

text \<open>
  \<^verbatim>\<open>toLowerCase\<close> is a built-in of the language, not code of the repository; the
  definitions take it as the parameter \<open>lower\<close>. \<open>asciiLower\<close> is the instance used
  for concrete names: it agrees with the built-in on every string of ASCII letters, digits,
  punctuation and the ideographs the sanitizer lets through, none of which has a case
  mapping outside \<^verbatim>\<open>A-Z\<close>.
\<close>

definition asciiLower :: "jsstring \<Rightarrow> jsstring" where
  "asciiLower s = map (\<lambda>c. if 0x41 \<le> c \<and> c \<le> 0x5A then c + 0x20 else c) s"

text \<open>
  The name tried after \<open>counter - 1\<close> collisions: the counter goes before the last dot of
  the base name, or at the end when the base name has no dot.
\<close>

definition withCounter :: "jsstring \<Rightarrow> nat \<Rightarrow> jsstring" where
  "withCounter baseFinalName counter =
     (case lastIndexOf baseFinalName dot of
        Some dotIndex \<Rightarrow>
          take dotIndex baseFinalName @ [underscore] @ decimal counter @ drop dotIndex baseFinalName
      | None \<Rightarrow> baseFinalName @ [underscore] @ decimal counter)"

text \<open>
  The loop \<^verbatim>\<open>while (usedNames.has(uniqueName.toLowerCase()))\<close>. Nothing in the code
  bounds it, so it is a partial function: \<open>None\<close> is a loop that never ends.
\<close>

partial_function (option) uniqueNameLoop ::
  "(jsstring \<Rightarrow> jsstring) \<Rightarrow> jsstring set \<Rightarrow> jsstring \<Rightarrow> jsstring \<Rightarrow> nat \<Rightarrow> jsstring option" where
  "uniqueNameLoop lower usedNames baseFinalName uniqueName counter =
     (if lower uniqueName \<in> usedNames
      then uniqueNameLoop lower usedNames baseFinalName (withCounter baseFinalName counter) (counter + 1)
      else Some uniqueName)"

declare uniqueNameLoop.simps [code]

text \<open>
  The names the loop tries, in order: the base name itself, then the base name with the
  counter 1, 2, and so on.
\<close>

fun candidate :: "jsstring \<Rightarrow> nat \<Rightarrow> jsstring" where
  "candidate baseFinalName 0 = baseFinalName"
| "candidate baseFinalName (Suc k) = withCounter baseFinalName (Suc k)"

definition resolveName :: "(jsstring \<Rightarrow> jsstring) \<Rightarrow> jsstring set \<Rightarrow> jsstring \<Rightarrow> jsstring option" where
  "resolveName lower usedNames baseFinalName = uniqueNameLoop lower usedNames baseFinalName baseFinalName 1"

section \<open>The data model (types.ts)\<close>

datatype Status = Pending | Processing | Completed | Error

text \<open>The browser's \<^verbatim>\<open>File\<close>: the two properties the code reads.\<close>

record JsFile =
  fileName :: jsstring
  fileType :: jsstring

record IconMetadata =
  englishName :: jsstring
  chineseName :: jsstring
  domainOrNote :: jsstring

text \<open>\<^verbatim>\<open>newName: string | null\<close> and the optional \<^verbatim>\<open>metadata\<close> are options.\<close>

record ProcessedFile =
  fileId :: jsstring
  originalFile :: JsFile
  originalName :: jsstring
  newName :: "jsstring option"
  status :: Status
  metadata :: "IconMetadata option"

record BatchResult =
  resultId :: jsstring
  resultOriginalName :: jsstring
  english :: jsstring
  chinese :: jsstring
  domain :: jsstring

section \<open>The queue operations (App.tsx, FileUpload)\<close>

text \<open>
  The upload surface keeps the files of type \<^verbatim>\<open>image/png\<close>, does nothing while it is
  disabled and calls the handler only with a non-empty selection. The identifiers come from
  \<^verbatim>\<open>Math.random\<close> and the clock, so each selected file arrives with the identifier
  drawn for it.
\<close>

definition acceptedFiles :: "(jsstring \<times> JsFile) list \<Rightarrow> (jsstring \<times> JsFile) list" where
  "acceptedFiles selected = filter (\<lambda>(newId, f). fileType f = js ''image/png'') selected"

definition handleFilesSelected :: "(jsstring \<times> JsFile) list \<Rightarrow> ProcessedFile list \<Rightarrow> ProcessedFile list" where
  "handleFilesSelected newFiles prev =
     prev @ map (\<lambda>(newId, f).
       \<lparr>fileId = newId, originalFile = f, originalName = fileName f,
        newName = None, status = Pending, metadata = None\<rparr>) newFiles"

definition handleDeleteFile :: "jsstring \<Rightarrow> ProcessedFile list \<Rightarrow> ProcessedFile list" where
  "handleDeleteFile delId prev = filter (\<lambda>f. fileId f \<noteq> delId) prev"

section \<open>One orchestration cycle (App.tsx, the effect and processNextBatch)\<close>

definition CHUNK_SIZE :: nat where
  "CHUNK_SIZE = 50"

definition pendingFiles :: "ProcessedFile list \<Rightarrow> ProcessedFile list" where
  "pendingFiles fs = filter (\<lambda>f. status f = Pending) fs"

text \<open>\<^verbatim>\<open>pendingFiles.slice(0, CHUNK_SIZE)\<close>, with the chunk size as a parameter.\<close>

definition selectChunk :: "nat \<Rightarrow> ProcessedFile list \<Rightarrow> ProcessedFile list" where
  "selectChunk chunkSize fs = take chunkSize (pendingFiles fs)"

record ChunkDatum =
  datumId :: jsstring
  nameWithoutExt :: jsstring
  ext :: jsstring
  datumOriginalName :: jsstring

definition chunkDatum :: "ProcessedFile \<Rightarrow> ChunkDatum" where
  "chunkDatum f =
     (case lastIndexOf (originalName f) dot of
        Some lastDotIndex \<Rightarrow>
          \<lparr>datumId = fileId f, nameWithoutExt = take lastDotIndex (originalName f),
           ext = drop (lastDotIndex + 1) (originalName f), datumOriginalName = originalName f\<rparr>
      | None \<Rightarrow>
          \<lparr>datumId = fileId f, nameWithoutExt = originalName f,
           ext = [], datumOriginalName = originalName f\<rparr>)"

text \<open>The payload: the pairs \<^verbatim>\<open>{i, n}\<close> of identifier and stem.\<close>

definition itemsToSend :: "ChunkDatum list \<Rightarrow> (jsstring \<times> jsstring) list" where
  "itemsToSend ds = map (\<lambda>d. (datumId d, nameWithoutExt d)) ds"

text \<open>The first \<^verbatim>\<open>setFiles\<close> of a cycle: the chunk goes to Processing, and a record
  still in Processing from an earlier cycle goes to Error.\<close>

definition markProcessing :: "jsstring set \<Rightarrow> ProcessedFile list \<Rightarrow> ProcessedFile list" where
  "markProcessing ids prev =
     map (\<lambda>f. if fileId f \<in> ids then f\<lparr>status := Processing\<rparr>
              else if status f = Processing then f\<lparr>status := Error\<rparr>
              else f) prev"

text \<open>The registry: the loop over \<^verbatim>\<open>filesRef.current\<close>. An empty name is falsy.\<close>

definition collectUsedNames :: "(jsstring \<Rightarrow> jsstring) \<Rightarrow> ProcessedFile list \<Rightarrow> jsstring set" where
  "collectUsedNames lower fs =
     fold (\<lambda>f used.
        case newName f of
          Some nm \<Rightarrow> if nm \<noteq> [] \<and> status f = Completed then insert (lower nm) used else used
        | None \<Rightarrow> used) fs {}"

text \<open>The zombie branch, the stop handler and the catch branch, each one \<^verbatim>\<open>map\<close>.\<close>

definition zombiesToError :: "ProcessedFile list \<Rightarrow> ProcessedFile list" where
  "zombiesToError prev = map (\<lambda>f. if status f = Processing then f\<lparr>status := Error\<rparr> else f) prev"

definition revertProcessing :: "ProcessedFile list \<Rightarrow> ProcessedFile list" where
  "revertProcessing prev = map (\<lambda>f. if status f = Processing then f\<lparr>status := Pending\<rparr> else f) prev"

definition failChunk :: "jsstring set \<Rightarrow> ProcessedFile list \<Rightarrow> ProcessedFile list" where
  "failChunk ids prev = map (\<lambda>f. if fileId f \<in> ids then f\<lparr>status := Error\<rparr> else f) prev"

subsection \<open>The merge of a successful response\<close>

text \<open>
  The three sanitized fields of a result, and the name proposed for a record from them: the
  values the callback below binds to \<^verbatim>\<open>safeEng\<close>, \<^verbatim>\<open>safeChn\<close>, \<^verbatim>\<open>safeDom\<close> and
  \<^verbatim>\<open>baseFinalName\<close>, named so that statements can speak of them. The fields of a result
  are strings, as types.ts declares them and the response schema requires them.
\<close>

definition sanitizedMetadata :: "BatchResult \<Rightarrow> IconMetadata" where
  "sanitizedMetadata res =
     \<lparr>englishName = sanitizePart (Some (english res)) False,
      chineseName = sanitizePart (Some (chinese res)) False,
      domainOrNote = sanitizePart (Some (domain res)) True\<rparr>"

definition originalExtOf :: "ChunkDatum list \<Rightarrow> jsstring \<Rightarrow> jsstring" where
  "originalExtOf ds wantedId =
     (case find (\<lambda>d. datumId d = wantedId) ds of
        Some pData \<Rightarrow> if ext pData \<noteq> [] then dot # ext pData else []
      | None \<Rightarrow> [])"

definition baseFinalNameOf :: "jsstring \<Rightarrow> jsstring \<Rightarrow> jsstring \<Rightarrow> jsstring \<Rightarrow> jsstring" where
  "baseFinalNameOf safeEng safeChn safeDom originalExt =
     safeEng @ js ''--'' @ safeChn @ js ''--'' @ safeDom @ originalExt"

definition proposedName :: "ChunkDatum list \<Rightarrow> BatchResult \<Rightarrow> ProcessedFile \<Rightarrow> jsstring" where
  "proposedName ds res file =
     baseFinalNameOf (englishName (sanitizedMetadata res)) (chineseName (sanitizedMetadata res))
       (domainOrNote (sanitizedMetadata res)) (originalExtOf ds (fileId file))"

text \<open>
  The body of the \<^verbatim>\<open>map\<close> callback for one record. The registry is the closure's
  \<^verbatim>\<open>usedNames\<close>, mutated from one record to the next, so it is passed in and returned.
\<close>

definition mergeFile ::
  "(jsstring \<Rightarrow> jsstring) \<Rightarrow> jsstring set \<Rightarrow> ChunkDatum list \<Rightarrow> BatchResult list \<Rightarrow>
   jsstring set \<Rightarrow> ProcessedFile \<Rightarrow> (ProcessedFile \<times> jsstring set) option" where
  "mergeFile lower ids ds results used file =
     (if fileId file \<notin> ids then Some (file, used)
      else
        case find (\<lambda>r. resultId r = fileId file) results of
          None \<Rightarrow> Some (file\<lparr>status := Error\<rparr>, used)
        | Some res \<Rightarrow>
            let originalExt = originalExtOf ds (fileId file);
                safeEng = sanitizePart (Some (english res)) False;
                safeChn = sanitizePart (Some (chinese res)) False;
                safeDom = sanitizePart (Some (domain res)) True;
                baseFinalName = baseFinalNameOf safeEng safeChn safeDom originalExt
            in (case resolveName lower used baseFinalName of
                  None \<Rightarrow> None
                | Some uniqueName \<Rightarrow>
                    Some (file\<lparr>status := Completed, newName := Some uniqueName,
                               metadata := Some \<lparr>englishName = safeEng, chineseName = safeChn,
                                                 domainOrNote = safeDom\<rparr>\<rparr>,
                          insert (lower uniqueName) used)))"

fun mergeFiles ::
  "(jsstring \<Rightarrow> jsstring) \<Rightarrow> jsstring set \<Rightarrow> ChunkDatum list \<Rightarrow> BatchResult list \<Rightarrow>
   jsstring set \<Rightarrow> ProcessedFile list \<Rightarrow> (ProcessedFile list \<times> jsstring set) option" where
  "mergeFiles lower ids ds results used [] = Some ([], used)"
| "mergeFiles lower ids ds results used (file # rest) =
     (case mergeFile lower ids ds results used file of
        None \<Rightarrow> None
      | Some (file', used') \<Rightarrow>
          (case mergeFiles lower ids ds results used' rest of
             None \<Rightarrow> None
           | Some (rest', used'') \<Rightarrow> Some (file' # rest', used'')))"

section \<open>The oracle client (geminiService, analyzeFilenamesBatch)\<close>

text \<open>
  What the \<^verbatim>\<open>catch\<close> reads of the thrown value: its \<^verbatim>\<open>message\<close>, a string or
  absent, and its \<^verbatim>\<open>status\<close>, a number or absent (a status of another type is never
  strictly equal to 429 or 503, so it counts as absent).
\<close>

record JsError =
  errMessage :: "jsstring option"
  errStatus :: "int option"

text \<open>One call of \<^verbatim>\<open>generateContent\<close>: it throws, or answers with a text that may be
  \<^verbatim>\<open>undefined\<close>.\<close>

datatype Attempt = Responded "jsstring option" | Threw JsError

definition isRateLimit :: "JsError \<Rightarrow> bool" where
  "isRateLimit e \<longleftrightarrow>
     (case errMessage e of Some m \<Rightarrow> includesStr m (js ''429'') | None \<Rightarrow> False) \<or> errStatus e = Some 429"

definition isServerBusy :: "JsError \<Rightarrow> bool" where
  "isServerBusy e \<longleftrightarrow>
     (case errMessage e of Some m \<Rightarrow> includesStr m (js ''503'') | None \<Rightarrow> False) \<or> errStatus e = Some 503"

text \<open>The white space class of a JavaScript regular expression.\<close>

definition isJsSpace :: "jschar \<Rightarrow> bool" where
  "isJsSpace c \<longleftrightarrow>
     (0x09 \<le> c \<and> c \<le> 0x0D) \<or> c = 0x20 \<or> c = 0xA0 \<or> c = 0x1680 \<or>
     (0x2000 \<le> c \<and> c \<le> 0x200A) \<or> c = 0x2028 \<or> c = 0x2029 \<or> c = 0x202F \<or>
     c = 0x205F \<or> c = 0x3000 \<or> c = 0xFEFF"

text \<open>The removal of a code fence: the opening marker with the white space after it, then
  the closing marker at the very end with the white space before it.\<close>

definition stripClosingFence :: "jsstring \<Rightarrow> jsstring" where
  "stripClosingFence s =
     (if endsWith s (js ''```'')
      then rev (dropWhile isJsSpace (rev (take (length s - 3) s)))
      else s)"

definition stripFences :: "jsstring \<Rightarrow> jsstring" where
  "stripFences text =
     (if startsWith text (js ''```json'') then stripClosingFence (dropWhile isJsSpace (drop 7 text))
      else if startsWith text (js ''```'') then stripClosingFence (dropWhile isJsSpace (drop 3 text))
      else text)"

text \<open>
  The body of the \<^verbatim>\<open>try\<close>. \<^verbatim>\<open>JSON.parse\<close> followed by the field renaming is the
  parameter \<open>parseJson\<close>: it returns the results or the error it throws.
\<close>

definition attemptOnce :: "(jsstring \<Rightarrow> JsError + BatchResult list) \<Rightarrow> Attempt \<Rightarrow> JsError + BatchResult list" where
  "attemptOnce parseJson a =
     (case a of
        Threw e \<Rightarrow> Inl e
      | Responded None \<Rightarrow> Inr []
      | Responded (Some text) \<Rightarrow> if text = [] then Inr [] else parseJson (stripFences text))"

text \<open>
  The retry loop. The payload only enters the prompt, and what the service does with it is
  not the client's to decide: \<open>oracle k\<close> is what the \<open>k\<close>-th call of the service does.
  The result comes with the waits slept, in milliseconds and in order, and with the number of
  calls made. The counter \<open>retries\<close> is decremented only while it is positive, so the loop
  condition \<^verbatim>\<open>retries >= 0\<close> never fails and the \<^verbatim>\<open>return []\<close> after the loop is never
  reached.
\<close>

record ClientRun =
  outcome :: "JsError + BatchResult list"
  waits :: "int list"
  callsMade :: nat

fun retryLoop ::
  "(jsstring \<Rightarrow> JsError + BatchResult list) \<Rightarrow> (nat \<Rightarrow> Attempt) \<Rightarrow> nat \<Rightarrow> nat \<Rightarrow> ClientRun" where
  "retryLoop parseJson oracle k retries =
     (case attemptOnce parseJson (oracle k) of
        Inr results \<Rightarrow> \<lparr>outcome = Inr results, waits = [], callsMade = 1\<rparr>
      | Inl e \<Rightarrow>
          if (isRateLimit e \<or> isServerBusy e) \<and> retries > 0
          then
            (let waitTime = 3000 * (4 - int retries);
                 r = retryLoop parseJson oracle (k + 1) (retries - 1)
             in r\<lparr>waits := waitTime # waits r, callsMade := callsMade r + 1\<rparr>)
          else \<lparr>outcome = Inl e, waits = [], callsMade = 1\<rparr>)"

declare retryLoop.simps [simp del]

definition analyzeFilenamesBatch ::
  "(jsstring \<Rightarrow> JsError + BatchResult list) \<Rightarrow> (nat \<Rightarrow> Attempt) \<Rightarrow> ClientRun" where
  "analyzeFilenamesBatch parseJson oracle = retryLoop parseJson oracle 0 3"

section \<open>The application state and its events (App.tsx, ProcessingStatus)\<close>

text \<open>
  A call of \<^verbatim>\<open>processNextBatch\<close> is suspended twice: while it awaits the oracle and
  while it awaits the cooldown timer. What it holds meanwhile are the constants of its
  closure: the identifiers and the data of its chunk, the payload, and the registry it built
  before the call.
\<close>

datatype Phase = AwaitingOracle | CoolingDown | Finished

record BatchCall =
  callChunkIds :: "jsstring set"
  callChunkData :: "ChunkDatum list"
  callItems :: "(jsstring \<times> jsstring) list"
  callUsedNames :: "jsstring set"
  callPhase :: Phase

text \<open>
  The state of the component: the three pieces of React state the cycle depends on, the
  in-flight guard, and the suspended calls in the order they were started. The status
  message is display only and is left out.
\<close>

record AppState =
  files :: "ProcessedFile list"
  isProcessing :: bool
  batchTick :: nat
  isRequestInFlight :: bool
  calls :: "BatchCall list"

definition initialState :: AppState where
  "initialState = \<lparr>files = [], isProcessing = False, batchTick = 0, isRequestInFlight = False, calls = []\<rparr>"

text \<open>The synchronous part of \<^verbatim>\<open>processNextBatch\<close>, up to the \<^verbatim>\<open>await\<close>.\<close>

definition processNextBatch :: "(jsstring \<Rightarrow> jsstring) \<Rightarrow> nat \<Rightarrow> AppState \<Rightarrow> AppState" where
  "processNextBatch lower chunkSize s =
     (let chunk = selectChunk chunkSize (files s);
          ids = set (map fileId chunk);
          ds = map chunkDatum chunk;
          call = \<lparr>callChunkIds = ids, callChunkData = ds, callItems = itemsToSend ds,
                  callUsedNames = collectUsedNames lower (files s), callPhase = AwaitingOracle\<rparr>
      in s\<lparr>files := markProcessing ids (files s), isRequestInFlight := True, calls := calls s @ [call]\<rparr>)"

text \<open>The effect that React runs after a render in which the files, the flag or the tick
  changed.\<close>

definition cycleEffect :: "(jsstring \<Rightarrow> jsstring) \<Rightarrow> nat \<Rightarrow> AppState \<Rightarrow> AppState" where
  "cycleEffect lower chunkSize s =
     (if \<not> isProcessing s then s
      else if isRequestInFlight s then s
      else if pendingFiles (files s) = [] then
        (if list_ex (\<lambda>f. status f = Processing) (files s)
         then s\<lparr>files := zombiesToError (files s)\<rparr>
         else s\<lparr>isProcessing := False\<rparr>)
      else processNextBatch lower chunkSize s)"

text \<open>What the continuation after the \<^verbatim>\<open>await\<close> does to the files: the merge on
  success, the \<^verbatim>\<open>catch\<close> branch on failure.\<close>

definition settleFiles ::
  "(jsstring \<Rightarrow> jsstring) \<Rightarrow> BatchCall \<Rightarrow> JsError + BatchResult list \<Rightarrow> ProcessedFile list \<Rightarrow>
   ProcessedFile list option" where
  "settleFiles lower call result prev =
     (case result of
        Inr results \<Rightarrow>
          map_option fst
            (mergeFiles lower (callChunkIds call) (callChunkData call) results (callUsedNames call) prev)
      | Inl e \<Rightarrow> Some (failChunk (callChunkIds call) prev))"

definition handleStartProcessing :: "AppState \<Rightarrow> AppState" where
  "handleStartProcessing s = s\<lparr>isProcessing := True\<rparr>"

definition handleStopProcessing :: "AppState \<Rightarrow> AppState" where
  "handleStopProcessing s =
     s\<lparr>isProcessing := False, files := revertProcessing (files s), isRequestInFlight := False\<rparr>"

definition handleRestart :: "AppState \<Rightarrow> AppState" where
  "handleRestart s = s\<lparr>isProcessing := False, files := [], isRequestInFlight := False\<rparr>"

text \<open>The progress count of the status panel: Completed and Error together.\<close>

definition completedCount :: "ProcessedFile list \<Rightarrow> nat" where
  "completedCount fs = length (filter (\<lambda>f. status f = Completed \<or> status f = Error) fs)"

text \<open>
  The events of the single thread of control. A state update is applied once and whole
  before the next event, as React applies an updater in production. A button that is not rendered cannot be
  pressed, an upload surface that is disabled ignores the selection, and a suspended call
  resumes only from the phase it is in; \<open>None\<close> is an event that cannot happen in the
  state, or a merge that never returns.
\<close>

datatype Event =
    SelectFiles "(jsstring \<times> JsFile) list"
  | DeleteFile jsstring
  | PressStart
  | PressStop
  | PressRestart
  | RunEffect
  | OracleSettles nat "JsError + BatchResult list"
  | CooldownEnds nat

fun step :: "(jsstring \<Rightarrow> jsstring) \<Rightarrow> nat \<Rightarrow> AppState \<Rightarrow> Event \<Rightarrow> AppState option" where
  "step lower chunkSize s (SelectFiles selected) =
     (if isProcessing s \<or> acceptedFiles selected = [] then Some s
      else Some (s\<lparr>files := handleFilesSelected (acceptedFiles selected) (files s)\<rparr>))"
| "step lower chunkSize s (DeleteFile delId) =
     (if files s = [] then None else Some (s\<lparr>files := handleDeleteFile delId (files s)\<rparr>))"
| "step lower chunkSize s PressStart =
     (if files s \<noteq> [] \<and> \<not> isProcessing s \<and> completedCount (files s) < length (files s)
      then Some (handleStartProcessing s) else None)"
| "step lower chunkSize s PressStop =
     (if files s \<noteq> [] \<and> isProcessing s then Some (handleStopProcessing s) else None)"
| "step lower chunkSize s PressRestart =
     (if files s \<noteq> [] \<and> \<not> isProcessing s then Some (handleRestart s) else None)"
| "step lower chunkSize s RunEffect = Some (cycleEffect lower chunkSize s)"
| "step lower chunkSize s (OracleSettles k result) =
     (if k < length (calls s) \<and> callPhase (calls s ! k) = AwaitingOracle
      then
        (case settleFiles lower (calls s ! k) result (files s) of
           None \<Rightarrow> None
         | Some fs \<Rightarrow> Some (s\<lparr>files := fs, calls := (calls s)[k := (calls s ! k)\<lparr>callPhase := CoolingDown\<rparr>]\<rparr>))
      else None)"
| "step lower chunkSize s (CooldownEnds k) =
     (if k < length (calls s) \<and> callPhase (calls s ! k) = CoolingDown
      then Some (s\<lparr>isRequestInFlight := False, batchTick := batchTick s + 1,
                   calls := (calls s)[k := (calls s ! k)\<lparr>callPhase := Finished\<rparr>]\<rparr>)
      else None)"

fun run :: "(jsstring \<Rightarrow> jsstring) \<Rightarrow> nat \<Rightarrow> AppState \<Rightarrow> Event list \<Rightarrow> AppState option" where
  "run lower chunkSize s [] = Some s"
| "run lower chunkSize s (e # es) =
     (case step lower chunkSize s e of None \<Rightarrow> None | Some s' \<Rightarrow> run lower chunkSize s' es)"

text \<open>The names of the Completed records, in queue order.\<close>

definition completedNames :: "ProcessedFile list \<Rightarrow> jsstring list" where
  "completedNames fs = concat (map (\<lambda>f. case newName f of Some nm \<Rightarrow> [nm] | None \<Rightarrow> []) (filter (\<lambda>f. status f = Completed) fs))"

text \<open>The dedup invariant: no two Completed records share a name up to case.\<close>

definition dedupOk :: "(jsstring \<Rightarrow> jsstring) \<Rightarrow> ProcessedFile list \<Rightarrow> bool" where
  "dedupOk lower fs \<longleftrightarrow> distinct (map lower (completedNames fs))"

text \<open>
  What holds of a state as long as calls follow one another: the dedup invariant, no empty
  name, every call but the last one finished, a last call that is not finished holds the
  guard while the run is on, and a last call that awaits its answer has every lowered name
  of a Completed record in its registry.
\<close>

definition serialInv :: "(jsstring \<Rightarrow> jsstring) \<Rightarrow> AppState \<Rightarrow> bool" where
  "serialInv lower s \<longleftrightarrow>
     dedupOk lower (files s) \<and> [] \<notin> set (completedNames (files s)) \<and>
     list_all (\<lambda>c. callPhase c = Finished) (butlast (calls s)) \<and>
     (calls s \<noteq> [] \<longrightarrow>
        (callPhase (last (calls s)) \<noteq> Finished \<longrightarrow> isRequestInFlight s \<and> isProcessing s) \<and>
        (callPhase (last (calls s)) = AwaitingOracle \<longrightarrow>
           lower ` set (completedNames (files s)) \<subseteq> callUsedNames (last (calls s))))"

text \<open>An attempt fails transiently when the \<^verbatim>\<open>catch\<close> classifies what it threw as a
  rate limit or a busy server: the condition under which the loop may retry.\<close>

definition failsTransiently :: "(jsstring \<Rightarrow> JsError + BatchResult list) \<Rightarrow> Attempt \<Rightarrow> bool" where
  "failsTransiently parseJson a =
     (case attemptOnce parseJson a of Inl e \<Rightarrow> isRateLimit e \<or> isServerBusy e | Inr results \<Rightarrow> False)"

section \<open>Concrete data for the examples\<close>

definition rateLimited :: JsError where
  "rateLimited = \<lparr>errMessage = Some (js ''got status: 429 Too Many Requests''), errStatus = None\<rparr>"

definition serverBusy :: JsError where
  "serverBusy = \<lparr>errMessage = None, errStatus = Some 503\<rparr>"

definition badRequest :: JsError where
  "badRequest = \<lparr>errMessage = Some (js ''API key not valid''), errStatus = Some 400\<rparr>"

definition noResults :: "jsstring \<Rightarrow> JsError + BatchResult list" where
  "noResults text = Inr []"

definition pngFile :: "string \<Rightarrow> JsFile" where
  "pngFile nm = \<lparr>fileName = js nm, fileType = js ''image/png''\<rparr>"

definition queued :: "string \<Rightarrow> string \<Rightarrow> Status \<Rightarrow> ProcessedFile" where
  "queued ident nm st =
     \<lparr>fileId = js ident, originalFile = pngFile nm, originalName = js nm,
      newName = None, status = st, metadata = None\<rparr>"

definition fileA :: ProcessedFile where
  "fileA = queued ''a'' ''icon1.png'' Pending"

definition fileB :: ProcessedFile where
  "fileB = queued ''b'' ''icon2.png'' Pending"

definition fileC :: ProcessedFile where
  "fileC = queued ''c'' ''icon3.png'' Pending"




definition zombieState :: AppState where
  "zombieState =
     \<lparr>files = [queued ''a'' ''icon1.png'' Error, queued ''b'' ''icon2.png'' Processing],
      isProcessing = True, batchTick = 1, isRequestInFlight = False, calls = []\<rparr>"

definition drainedState :: AppState where
  "drainedState =
     \<lparr>files = [queued ''a'' ''icon1.png'' Error],
      isProcessing = True, batchTick = 1, isRequestInFlight = False, calls = []\<rparr>"

text \<open>
  Two failures that are neither a rate limit nor a busy server: a response cut off in the
  middle, on which \<^verbatim>\<open>JSON.parse\<close> throws a syntax error that names the position 429,
  and a request refused with status 400 whose message happens to hold the digits 503.
\<close>

definition parseErrorAt429 :: JsError where
  "parseErrorAt429 =
     \<lparr>errMessage = Some (js ''Unterminated string in JSON at position 429''), errStatus = None\<rparr>"

definition cutOffParser :: "jsstring \<Rightarrow> JsError + BatchResult list" where
  "cutOffParser text = Inl parseErrorAt429"

definition alwaysCutOff :: "nat \<Rightarrow> Attempt" where
  "alwaysCutOff k = Responded (Some (js ''[{''))"

definition badRequest503 :: JsError where
  "badRequest503 =
     \<lparr>errMessage = Some (js ''got status: 400 Bad Request. Invalid value at index 503''),
      errStatus = Some 400\<rparr>"

definition alwaysBadRequest :: "nat \<Rightarrow> Attempt" where
  "alwaysBadRequest k = Threw badRequest503"

definition twiceLimited :: "nat \<Rightarrow> Attempt" where
  "twiceLimited k = (if k < 2 then Threw rateLimited else Threw badRequest)"

definition alwaysBusy :: "nat \<Rightarrow> Attempt" where
  "alwaysBusy k = Threw serverBusy"

definition limitedThenEmpty :: "nat \<Rightarrow> Attempt" where
  "limitedThenEmpty k = (if k < 1 then Threw rateLimited else Responded (Some []))"

definition callAB :: BatchCall where
  "callAB =
     \<lparr>callChunkIds = {js ''a'', js ''b''}, callChunkData = map chunkDatum [fileA, fileB],
      callItems = itemsToSend (map chunkDatum [fileA, fileB]), callUsedNames = {},
      callPhase = AwaitingOracle\<rparr>"

definition inFlightAB :: "ProcessedFile list" where
  "inFlightAB = [queued ''a'' ''icon1.png'' Processing, queued ''b'' ''icon2.png'' Processing, fileC]"

text \<open>A result for the record a; its Chinese label is the two ideographs U+9996 U+9875.\<close>

definition resultHomeA :: BatchResult where
  "resultHomeA =
     \<lparr>resultId = js ''a'', resultOriginalName = js ''icon1'', english = js ''Home'',
      chinese = [0x9996, 0x9875], domain = js ''app''\<rparr>"

text \<open>A record whose original name has no extension, and a result for it with a dotted
  domain.\<close>

definition fileNoExt :: ProcessedFile where
  "fileNoExt = queued ''n'' ''icon'' Processing"

definition resultGoogle :: BatchResult where
  "resultGoogle =
     \<lparr>resultId = js ''n'', resultOriginalName = js ''icon'', english = js ''Home'',
      chinese = [0x9996, 0x9875], domain = js ''google.com''\<rparr>"

text \<open>
  A run with overlapping calls. The record a is sent, the run is stopped and started again
  while the first call is in flight, so a is sent a second time. The first answer arrives
  and its cooldown frees the guard; the queue is drained, the record b is added and sent in
  a third call, whose registry holds the name a has by then. The second answer arrives late
  and renames a; the third answer proposes for b the name a has just been given.
\<close>

definition resultHouseA :: BatchResult where
  "resultHouseA =
     \<lparr>resultId = js ''a'', resultOriginalName = js ''icon1'', english = js ''House'',
      chinese = [0x9996, 0x9875], domain = js ''app''\<rparr>"

definition resultHouseB :: BatchResult where
  "resultHouseB =
     \<lparr>resultId = js ''b'', resultOriginalName = js ''icon2'', english = js ''House'',
      chinese = [0x9996, 0x9875], domain = js ''app''\<rparr>"

definition stoppedTrace :: "Event list" where
  "stoppedTrace =
     [SelectFiles [(js ''a'', pngFile ''icon1.png'')], PressStart, RunEffect, PressStop]"

definition raceTrace :: "Event list" where
  "raceTrace =
     stoppedTrace @
     [PressStart, RunEffect, OracleSettles 0 (Inr [resultHomeA]), CooldownEnds 0, RunEffect,
      SelectFiles [(js ''b'', pngFile ''icon2.png'')], PressStart, RunEffect,
      OracleSettles 1 (Inr [resultHouseA]), OracleSettles 2 (Inr [resultHouseB])]"

text \<open>A run in which two files without extension get the same labels and a dotted domain.\<close>

definition resultGoogleM :: BatchResult where
  "resultGoogleM = resultGoogle\<lparr>resultId := js ''m'', resultOriginalName := js ''logo''\<rparr>"

definition noExtTrace :: "Event list" where
  "noExtTrace =
     [SelectFiles [(js ''n'', pngFile ''icon''), (js ''m'', pngFile ''logo'')], PressStart, RunEffect,
      OracleSettles 0 (Inr [resultGoogle, resultGoogleM])]"

text \<open>
  The end-to-end scenario of the specification: three files, the first two with the same
  labels. The Chinese labels are U+9996 U+9875 and U+641C U+7D22.
\<close>

definition scenarioTrace :: "Event list" where
  "scenarioTrace =
     [SelectFiles [(js ''a'', pngFile ''icon1.png''), (js ''b'', pngFile ''icon2.png''),
                   (js ''c'', pngFile ''icon3.png'')],
      PressStart, RunEffect,
      OracleSettles 0 (Inr
        [\<lparr>resultId = js ''a'', resultOriginalName = js ''icon1'', english = js ''Home'',
          chinese = [0x9996, 0x9875], domain = js ''app''\<rparr>,
         \<lparr>resultId = js ''b'', resultOriginalName = js ''icon2'', english = js ''Home'',
          chinese = [0x9996, 0x9875], domain = js ''app''\<rparr>,
         \<lparr>resultId = js ''c'', resultOriginalName = js ''icon3'', english = js ''Search'',
          chinese = [0x641C, 0x7D22], domain = js ''web''\<rparr>]),
      CooldownEnds 0, RunEffect]"

definition inFlightState :: AppState where
  "inFlightState =
     \<lparr>files = inFlightAB, isProcessing = True, batchTick = 0, isRequestInFlight = True,
      calls = [callAB]\<rparr>"

section \<open>Evaluating literals\<close>

lemma js_simps:
  "js [] = []" "js (c # cs) = of_char c # js cs"
  by (simp_all add: js_def)

section \<open>Deleting a record\<close>

lemma filter_distinct_ids_split:
  assumes "distinct (map fileId prev)" "x \<in> set prev"
  shows "\<exists>pre post. prev = pre @ x # post \<and> filter (\<lambda>f. fileId f \<noteq> fileId x) prev = pre @ post"
proof -
  from assms(2) obtain pre post where sp: "prev = pre @ x # post"
    by (auto simp: in_set_conv_decomp)
  from assms(1) have d: "fileId x \<notin> fileId ` set pre" "fileId x \<notin> fileId ` set post"
    unfolding sp by auto
  have "filter (\<lambda>f. fileId f \<noteq> fileId x) pre = pre"
    using d(1) by (simp add: filter_id_conv image_iff) metis
  moreover have "filter (\<lambda>f. fileId f \<noteq> fileId x) post = post"
    using d(2) by (simp add: filter_id_conv image_iff) metis
  ultimately have "filter (\<lambda>f. fileId f \<noteq> fileId x) prev = pre @ post"
    unfolding sp by simp
  with sp show ?thesis by blast
qed

text \<open>
  Claim C10. In a queue whose identifiers are pairwise distinct, deleting by identifier
  either finds no record and leaves the queue as it is, or removes exactly the one record
  with that identifier: the records before it and after it stay, whole and in order.
\<close>

theorem handleDeleteFile_frame:
  assumes "distinct (map fileId prev)"
  shows "(delId \<notin> fileId ` set prev \<and> handleDeleteFile delId prev = prev) \<or>
         (\<exists>pre x post. prev = pre @ x # post \<and> fileId x = delId \<and>
            handleDeleteFile delId prev = pre @ post)"
proof (cases "delId \<in> fileId ` set prev")
  case False
  then have "\<forall>f\<in>set prev. fileId f \<noteq> delId" by auto
  then have "filter (\<lambda>f. fileId f \<noteq> delId) prev = prev"
    by simp
  with False show ?thesis by (simp add: handleDeleteFile_def)
next
  case True
  then obtain x where x: "x \<in> set prev" "fileId x = delId" by auto
  from filter_distinct_ids_split [OF assms x(1)] obtain pre post where
    "prev = pre @ x # post" "filter (\<lambda>f. fileId f \<noteq> fileId x) prev = pre @ post"
    by blast
  then have "prev = pre @ x # post \<and> fileId x = delId \<and> handleDeleteFile delId prev = pre @ post"
    using x(2) by (simp add: handleDeleteFile_def)
  then show ?thesis by blast
qed

theorem handleDeleteFile_frame_witness:
  "distinct (map fileId [fileA, fileB, fileC]) \<and>
   ((js ''b'' \<notin> fileId ` set [fileA, fileB, fileC] \<and>
       handleDeleteFile (js ''b'') [fileA, fileB, fileC] = [fileA, fileB, fileC]) \<or>
    (\<exists>pre x post. [fileA, fileB, fileC] = pre @ x # post \<and> fileId x = js ''b'' \<and>
       handleDeleteFile (js ''b'') [fileA, fileB, fileC] = pre @ post))"
proof -
  have d: "distinct (map fileId [fileA, fileB, fileC])"
    by (simp add: fileA_def fileB_def fileC_def queued_def js_def)
  from d handleDeleteFile_frame [OF d, of "js ''b''"] show ?thesis
    by (rule conjI)
qed

section \<open>Chunk selection\<close>



section \<open>The empty-queue branch of the cycle\<close>

text \<open>
  Claim C6. When a cycle check runs (the flag is set and no call is in flight) on a queue
  without Pending records: if some record is in Processing, every such record goes to Error
  and every other record is untouched, no call is started and the guard stays free; if no
  record is in Processing, the flag is cleared and nothing else changes.
\<close>

theorem zombie_healing:
  assumes "isProcessing s" "\<not> isRequestInFlight s" "pendingFiles (files s) = []"
  shows "(list_ex (\<lambda>f. status f = Processing) (files s) \<longrightarrow>
            length (files (cycleEffect lower chunkSize s)) = length (files s) \<and>
            (\<forall>i < length (files s).
               files (cycleEffect lower chunkSize s) ! i =
                 (if status (files s ! i) = Processing then (files s ! i)\<lparr>status := Error\<rparr> else files s ! i)) \<and>
            calls (cycleEffect lower chunkSize s) = calls s \<and>
            \<not> isRequestInFlight (cycleEffect lower chunkSize s) \<and>
            isProcessing (cycleEffect lower chunkSize s)) \<and>
         (\<not> list_ex (\<lambda>f. status f = Processing) (files s) \<longrightarrow>
            \<not> isProcessing (cycleEffect lower chunkSize s) \<and>
            files (cycleEffect lower chunkSize s) = files s \<and>
            calls (cycleEffect lower chunkSize s) = calls s \<and>
            \<not> isRequestInFlight (cycleEffect lower chunkSize s))"
  using assms by (simp add: cycleEffect_def zombiesToError_def)

theorem zombie_healing_witness:
  "isProcessing zombieState \<and> \<not> isRequestInFlight zombieState \<and> pendingFiles (files zombieState) = [] \<and>
   list_ex (\<lambda>f. status f = Processing) (files zombieState) \<and>
   map status (files (cycleEffect asciiLower CHUNK_SIZE zombieState)) = [Error, Error] \<and>
   calls (cycleEffect asciiLower CHUNK_SIZE zombieState) = [] \<and>
   isProcessing drainedState \<and> \<not> isRequestInFlight drainedState \<and> pendingFiles (files drainedState) = [] \<and>
   \<not> list_ex (\<lambda>f. status f = Processing) (files drainedState) \<and>
   \<not> isProcessing (cycleEffect asciiLower CHUNK_SIZE drainedState)"
proof -
  have z: "isProcessing zombieState" "\<not> isRequestInFlight zombieState" "pendingFiles (files zombieState) = []"
    "list_ex (\<lambda>f. status f = Processing) (files zombieState)"
    by (simp_all add: zombieState_def pendingFiles_def queued_def)
  have d: "isProcessing drainedState" "\<not> isRequestInFlight drainedState" "pendingFiles (files drainedState) = []"
    "\<not> list_ex (\<lambda>f. status f = Processing) (files drainedState)"
    by (simp_all add: drainedState_def pendingFiles_def queued_def)
  have l: "length (files zombieState) = 2" by (simp add: zombieState_def)
  from zombie_healing [OF z(1,2,3), of asciiLower CHUNK_SIZE] z(4)
  have zz: "length (files (cycleEffect asciiLower CHUNK_SIZE zombieState)) = length (files zombieState)"
     "\<forall>i < length (files zombieState).
               files (cycleEffect asciiLower CHUNK_SIZE zombieState) ! i =
                 (if status (files zombieState ! i) = Processing then (files zombieState ! i)\<lparr>status := Error\<rparr> else files zombieState ! i)"
     "calls (cycleEffect asciiLower CHUNK_SIZE zombieState) = calls zombieState"
    by simp_all
  from zz(2) l have "status (files (cycleEffect asciiLower CHUNK_SIZE zombieState) ! 0) = Error"
     "status (files (cycleEffect asciiLower CHUNK_SIZE zombieState) ! 1) = Error"
    by (simp_all add: zombieState_def queued_def)
  with zz(1) l have m: "map status (files (cycleEffect asciiLower CHUNK_SIZE zombieState)) = [Error, Error]"
    by (simp add: list_eq_iff_nth_eq less_Suc_eq numeral_2_eq_2)
  from zombie_healing [OF d(1,2,3), of asciiLower CHUNK_SIZE] d(4)
  have dd: "\<not> isProcessing (cycleEffect asciiLower CHUNK_SIZE drainedState)" by simp
  from z d m zz(3) dd show ?thesis by (simp add: zombieState_def)
qed

section \<open>The retry loop of the client\<close>

lemma retryLoop_stop:
  "\<not> failsTransiently parseJson (oracle k) \<Longrightarrow>
   retryLoop parseJson oracle k retries =
     \<lparr>outcome = attemptOnce parseJson (oracle k), waits = [], callsMade = 1\<rparr>"
  by (subst retryLoop.simps) (simp add: failsTransiently_def split: sum.splits)

lemma retryLoop_exhausted:
  "retryLoop parseJson oracle k 0 =
     \<lparr>outcome = attemptOnce parseJson (oracle k), waits = [], callsMade = 1\<rparr>"
  by (subst retryLoop.simps) (simp split: sum.splits)

lemma retryLoop_retry:
  "failsTransiently parseJson (oracle k) \<Longrightarrow>
   retryLoop parseJson oracle k (Suc r) =
     (retryLoop parseJson oracle (Suc k) r)
       \<lparr>waits := 3000 * (4 - int (Suc r)) # waits (retryLoop parseJson oracle (Suc k) r),
        callsMade := Suc (callsMade (retryLoop parseJson oracle (Suc k) r))\<rparr>"
  by (subst retryLoop.simps) (auto simp add: failsTransiently_def Let_def split: sum.splits)

lemma failsTransiently_Inl:
  "failsTransiently parseJson a \<Longrightarrow> \<exists>e. attemptOnce parseJson a = Inl e \<and> (isRateLimit e \<or> isServerBusy e)"
  by (simp add: failsTransiently_def split: sum.splits)

lemma client_settles_first: "\<not> failsTransiently parseJson (oracle 0) \<Longrightarrow>
  analyzeFilenamesBatch parseJson oracle = \<lparr>outcome = attemptOnce parseJson (oracle 0), waits = [], callsMade = 1\<rparr>"
  by (simp add: analyzeFilenamesBatch_def retryLoop_stop)

lemma client_settles_second: "failsTransiently parseJson (oracle 0) \<Longrightarrow> \<not> failsTransiently parseJson (oracle 1) \<Longrightarrow>
  analyzeFilenamesBatch parseJson oracle = \<lparr>outcome = attemptOnce parseJson (oracle 1), waits = [3000], callsMade = 2\<rparr>"
  by (simp add: analyzeFilenamesBatch_def retryLoop_retry retryLoop_stop eval_nat_numeral)

lemma client_settles_third: "failsTransiently parseJson (oracle 0) \<Longrightarrow> failsTransiently parseJson (oracle 1) \<Longrightarrow>
  \<not> failsTransiently parseJson (oracle 2) \<Longrightarrow>
  analyzeFilenamesBatch parseJson oracle = \<lparr>outcome = attemptOnce parseJson (oracle 2), waits = [3000, 6000], callsMade = 3\<rparr>"
  by (simp add: analyzeFilenamesBatch_def retryLoop_retry retryLoop_stop eval_nat_numeral)

lemma client_fourth_attempt: "failsTransiently parseJson (oracle 0) \<Longrightarrow> failsTransiently parseJson (oracle 1) \<Longrightarrow>
  failsTransiently parseJson (oracle 2) \<Longrightarrow>
  analyzeFilenamesBatch parseJson oracle = \<lparr>outcome = attemptOnce parseJson (oracle 3), waits = [3000, 6000, 9000], callsMade = 4\<rparr>"
  by (simp add: analyzeFilenamesBatch_def retryLoop_retry retryLoop_exhausted eval_nat_numeral)

lemma client_first_settled:
  assumes "j \<le> 3" "\<forall>i<j. failsTransiently parseJson (oracle i)" "\<not> failsTransiently parseJson (oracle j)"
  shows "analyzeFilenamesBatch parseJson oracle =
     \<lparr>outcome = attemptOnce parseJson (oracle j), waits = take j [3000, 6000, 9000], callsMade = j + 1\<rparr>"
proof -
  from assms(1) consider "j = 0" | "j = 1" | "j = 2" | "j = 3" by linarith
  then show ?thesis
  proof cases
    case 1 with assms show ?thesis by (simp add: client_settles_first)
  next
    case 2 with assms show ?thesis by (simp add: client_settles_second)
  next
    case 3 with assms show ?thesis by (simp add: client_settles_third numeral_2_eq_2)
  next
    case 4
    with assms have "failsTransiently parseJson (oracle 0)" "failsTransiently parseJson (oracle 1)"
      "failsTransiently parseJson (oracle 2)" by simp_all
    with 4 show ?thesis by (simp add: client_fourth_attempt)
  qed
qed

text \<open>
  What the loop does, in terms of the test of its own \<^verbatim>\<open>catch\<close>. Whatever the service
  does call after call, the client makes at most four calls (the first and three retries) and
  the waits it sleeps are the first of 3000, 6000 and 9000 milliseconds, one before each
  retry. The first attempt that the test does not class as a rate limit or a busy server ends
  the run with its own result. When all four attempts are so classed, the fourth error is
  raised after the three waits.
\<close>

theorem retry_budget:
  "callsMade (analyzeFilenamesBatch parseJson oracle) \<le> 4 \<and>
   waits (analyzeFilenamesBatch parseJson oracle) =
     take (callsMade (analyzeFilenamesBatch parseJson oracle) - 1) [3000, 6000, 9000] \<and>
   (\<forall>j\<le>3. (\<forall>i<j. failsTransiently parseJson (oracle i)) \<and> \<not> failsTransiently parseJson (oracle j) \<longrightarrow>
      outcome (analyzeFilenamesBatch parseJson oracle) = attemptOnce parseJson (oracle j) \<and>
      callsMade (analyzeFilenamesBatch parseJson oracle) = j + 1) \<and>
   ((\<forall>i<4. failsTransiently parseJson (oracle i)) \<longrightarrow>
      (\<exists>e. attemptOnce parseJson (oracle 3) = Inl e \<and>
           outcome (analyzeFilenamesBatch parseJson oracle) = Inl e) \<and>
      callsMade (analyzeFilenamesBatch parseJson oracle) = 4 \<and>
      waits (analyzeFilenamesBatch parseJson oracle) = [3000, 6000, 9000])"
proof -
  let ?r = "analyzeFilenamesBatch parseJson oracle"
  have settled: "\<And>j. j \<le> 3 \<Longrightarrow> (\<forall>i<j. failsTransiently parseJson (oracle i)) \<Longrightarrow>
      \<not> failsTransiently parseJson (oracle j) \<Longrightarrow>
      outcome ?r = attemptOnce parseJson (oracle j) \<and> callsMade ?r = j + 1 \<and>
      waits ?r = take j [3000, 6000, 9000]"
    by (simp add: client_first_settled)
  have exhausted: "(\<forall>i<4. failsTransiently parseJson (oracle i)) \<Longrightarrow>
      ?r = \<lparr>outcome = attemptOnce parseJson (oracle 3), waits = [3000, 6000, 9000], callsMade = 4\<rparr>"
    by (simp add: client_fourth_attempt)
  have bound: "callsMade ?r \<le> 4 \<and> waits ?r = take (callsMade ?r - 1) [3000, 6000, 9000]"
  proof (cases "\<forall>i<4. failsTransiently parseJson (oracle i)")
    case True
    with exhausted show ?thesis by simp
  next
    case False
    then have "\<exists>j. \<not> failsTransiently parseJson (oracle j) \<and> j < 4" by blast
    then obtain j where j: "\<not> failsTransiently parseJson (oracle j)" "j < 4"
      "\<forall>i<j. failsTransiently parseJson (oracle i)"
      using exists_least_iff [of "\<lambda>j. \<not> failsTransiently parseJson (oracle j) \<and> j < 4"]
      by (metis less_trans)
    with settled [of j] show ?thesis by simp
  qed
  have last: "(\<forall>i<4. failsTransiently parseJson (oracle i)) \<Longrightarrow>
      \<exists>e. attemptOnce parseJson (oracle 3) = Inl e \<and> outcome ?r = Inl e"
    using failsTransiently_Inl [of parseJson "oracle 3"] exhausted by auto
  from bound settled exhausted last show ?thesis by simp
qed

theorem retry_budget_witness:
  "failsTransiently noResults (twiceLimited 0) \<and> failsTransiently noResults (twiceLimited 1) \<and>
   \<not> failsTransiently noResults (twiceLimited 2) \<and>
   outcome (analyzeFilenamesBatch noResults twiceLimited) = Inl badRequest \<and>
   callsMade (analyzeFilenamesBatch noResults twiceLimited) = 3 \<and>
   waits (analyzeFilenamesBatch noResults twiceLimited) = [3000, 6000] \<and>
   failsTransiently noResults (alwaysBusy 0) \<and> failsTransiently noResults (alwaysBusy 1) \<and>
   failsTransiently noResults (alwaysBusy 2) \<and> failsTransiently noResults (alwaysBusy 3) \<and>
   outcome (analyzeFilenamesBatch noResults alwaysBusy) = Inl serverBusy \<and>
   callsMade (analyzeFilenamesBatch noResults alwaysBusy) = 4 \<and>
   waits (analyzeFilenamesBatch noResults alwaysBusy) = [3000, 6000, 9000]"
proof -
  have t: "failsTransiently noResults (twiceLimited 0)" "failsTransiently noResults (twiceLimited 1)"
    "\<not> failsTransiently noResults (twiceLimited 2)"
    by (simp_all add: failsTransiently_def attemptOnce_def twiceLimited_def rateLimited_def
        badRequest_def isRateLimit_def isServerBusy_def startsWith_def js_def)
  have b: "failsTransiently noResults (alwaysBusy k)" for k
    by (simp add: failsTransiently_def attemptOnce_def alwaysBusy_def serverBusy_def isServerBusy_def)
  have t2: "\<forall>i<2. failsTransiently noResults (twiceLimited i)"
    using t(1,2) by (simp add: less_Suc_eq numeral_2_eq_2)
  note tb = retry_budget [of noResults twiceLimited]
  have le: "(2::nat) \<le> 3" by simp
  from tb [THEN conjunct2, THEN conjunct2, THEN conjunct1, rule_format, OF le] t2 t(3)
  have o: "outcome (analyzeFilenamesBatch noResults twiceLimited) = attemptOnce noResults (twiceLimited 2)"
    "callsMade (analyzeFilenamesBatch noResults twiceLimited) = 3"
    by simp_all
  with tb [THEN conjunct2, THEN conjunct1]
  have w: "waits (analyzeFilenamesBatch noResults twiceLimited) = [3000, 6000]"
    by (simp add: numeral_2_eq_2)
  from o(1) have o1: "outcome (analyzeFilenamesBatch noResults twiceLimited) = Inl badRequest"
    by (simp add: attemptOnce_def twiceLimited_def)
  note bb = retry_budget [of noResults alwaysBusy]
  from bb b have e: "\<exists>e. attemptOnce noResults (alwaysBusy 3) = Inl e \<and>
           outcome (analyzeFilenamesBatch noResults alwaysBusy) = Inl e"
    "callsMade (analyzeFilenamesBatch noResults alwaysBusy) = 4"
    "waits (analyzeFilenamesBatch noResults alwaysBusy) = [3000, 6000, 9000]"
    by simp_all
  from e(1) have e1: "outcome (analyzeFilenamesBatch noResults alwaysBusy) = Inl serverBusy"
    by (auto simp add: attemptOnce_def alwaysBusy_def)
  from t o(2) w o1 b e(2,3) e1 show ?thesis by simp
qed

text \<open>
  Claim C5, at inputs on which the code departs from it. The test of the \<^verbatim>\<open>catch\<close> looks
  for the digits 429 and 503 anywhere in the message of whatever was thrown inside the
  \<^verbatim>\<open>try\<close>, and \<^verbatim>\<open>JSON.parse\<close> is inside it. A syntax error of the parser that names
  the position 429 is neither a rate limit nor a busy server, and a refusal with status 400
  is neither; both are retried three times, with all three waits, before they are raised.
\<close>

theorem retries_errors_that_are_not_transient:
  "errStatus parseErrorAt429 = None \<and>
   analyzeFilenamesBatch cutOffParser alwaysCutOff =
     \<lparr>outcome = Inl parseErrorAt429, waits = [3000, 6000, 9000], callsMade = 4\<rparr> \<and>
   errStatus badRequest503 = Some 400 \<and>
   analyzeFilenamesBatch noResults alwaysBadRequest =
     \<lparr>outcome = Inl badRequest503, waits = [3000, 6000, 9000], callsMade = 4\<rparr>"
proof -
  have p: "failsTransiently cutOffParser (alwaysCutOff k)" for k
    by (simp add: failsTransiently_def attemptOnce_def alwaysCutOff_def cutOffParser_def
        parseErrorAt429_def isRateLimit_def startsWith_def js_def)
  have b: "failsTransiently noResults (alwaysBadRequest k)" for k
    by (simp add: failsTransiently_def attemptOnce_def alwaysBadRequest_def badRequest503_def
        isRateLimit_def isServerBusy_def startsWith_def js_def)
  have "analyzeFilenamesBatch cutOffParser alwaysCutOff =
     \<lparr>outcome = attemptOnce cutOffParser (alwaysCutOff 3), waits = [3000, 6000, 9000], callsMade = 4\<rparr>"
    by (rule client_fourth_attempt [OF p p p])
  then have one: "analyzeFilenamesBatch cutOffParser alwaysCutOff =
     \<lparr>outcome = Inl parseErrorAt429, waits = [3000, 6000, 9000], callsMade = 4\<rparr>"
    by (simp add: attemptOnce_def alwaysCutOff_def cutOffParser_def js_def)
  have "analyzeFilenamesBatch noResults alwaysBadRequest =
     \<lparr>outcome = attemptOnce noResults (alwaysBadRequest 3), waits = [3000, 6000, 9000], callsMade = 4\<rparr>"
    by (rule client_fourth_attempt [OF b b b])
  then have two: "analyzeFilenamesBatch noResults alwaysBadRequest =
     \<lparr>outcome = Inl badRequest503, waits = [3000, 6000, 9000], callsMade = 4\<rparr>"
    by (simp add: attemptOnce_def alwaysBadRequest_def)
  from one two show ?thesis by (simp add: parseErrorAt429_def badRequest503_def)
qed

section \<open>An empty response\<close>

lemma mergeFiles_no_results:
  "mergeFiles lower ids ds [] used prev =
     Some (map (\<lambda>f. if fileId f \<in> ids then f\<lparr>status := Error\<rparr> else f) prev, used)"
  by (induction prev) (simp_all add: mergeFile_def)

text \<open>
  Claim C9. When the attempt that ends the run answers with no text (undefined or the empty
  string), the client returns the empty list, not an error, and the merge of that list puts
  every record of the chunk in Error and changes nothing else.
\<close>

theorem empty_response_fails_chunk:
  assumes "j \<le> 3" "\<forall>i<j. failsTransiently parseJson (oracle i)"
    and "oracle j = Responded None \<or> oracle j = Responded (Some [])"
  shows "outcome (analyzeFilenamesBatch parseJson oracle) = Inr [] \<and>
         settleFiles lower call (outcome (analyzeFilenamesBatch parseJson oracle)) prev =
           Some (map (\<lambda>f. if fileId f \<in> callChunkIds call then f\<lparr>status := Error\<rparr> else f) prev)"
proof -
  from assms(3) have a: "attemptOnce parseJson (oracle j) = Inr []"
    by (auto simp add: attemptOnce_def)
  then have "\<not> failsTransiently parseJson (oracle j)"
    by (simp add: failsTransiently_def)
  from client_first_settled [OF assms(1,2) this] a
  have "outcome (analyzeFilenamesBatch parseJson oracle) = Inr []" by simp
  then show ?thesis
    by (simp add: settleFiles_def mergeFiles_no_results)
qed

theorem empty_response_fails_chunk_witness:
  "(1::nat) \<le> 3 \<and> failsTransiently noResults (limitedThenEmpty 0) \<and>
   limitedThenEmpty 1 = Responded (Some []) \<and>
   outcome (analyzeFilenamesBatch noResults limitedThenEmpty) = Inr [] \<and>
   map_option (map status)
     (settleFiles asciiLower callAB (outcome (analyzeFilenamesBatch noResults limitedThenEmpty)) inFlightAB) =
     Some [Error, Error, Pending]"
proof -
  have f: "failsTransiently noResults (limitedThenEmpty 0)"
    by (simp add: failsTransiently_def attemptOnce_def limitedThenEmpty_def rateLimited_def
        isRateLimit_def startsWith_def js_def)
  then have f1: "\<forall>i<1. failsTransiently noResults (limitedThenEmpty i)" by simp
  have r: "limitedThenEmpty 1 = Responded (Some [])" by (simp add: limitedThenEmpty_def)
  then have r1: "limitedThenEmpty 1 = Responded None \<or> limitedThenEmpty 1 = Responded (Some [])"
    by simp
  have le: "(1::nat) \<le> 3" by simp
  note e = empty_response_fails_chunk [OF le f1 r1, of asciiLower callAB inFlightAB]
  from e have o: "outcome (analyzeFilenamesBatch noResults limitedThenEmpty) = Inr []"
    by (rule conjunct1)
  note m = e [THEN conjunct2]
  have "map_option (map status)
     (settleFiles asciiLower callAB (outcome (analyzeFilenamesBatch noResults limitedThenEmpty)) inFlightAB) =
     Some [Error, Error, Pending]"
    unfolding m by (simp add: callAB_def inFlightAB_def queued_def fileC_def js_def)
  with f r o show ?thesis by simp
qed

section \<open>The collision loop\<close>

lemma loop_reaches_first_free:
  assumes "c \<le> k" "\<And>j. c \<le> j \<Longrightarrow> j < k \<Longrightarrow> lower (candidate base j) \<in> used"
    and "lower (candidate base k) \<notin> used"
  shows "uniqueNameLoop lower used base (candidate base c) (Suc c) = Some (candidate base k)"
  using assms
proof (induction "k - c" arbitrary: c)
  case 0
  then have "c = k" by simp
  with 0 show ?case by (subst uniqueNameLoop.simps) simp
next
  case (Suc d)
  then have lt: "c < k" by simp
  with Suc.prems have "lower (candidate base c) \<in> used" by simp
  moreover have "uniqueNameLoop lower used base (candidate base (Suc c)) (Suc (Suc c)) = Some (candidate base k)"
  proof (rule Suc.hyps(1))
    show "d = k - Suc c" using Suc.hyps(2) by simp
    show "Suc c \<le> k" using lt by simp
    show "\<And>j. Suc c \<le> j \<Longrightarrow> j < k \<Longrightarrow> lower (candidate base j) \<in> used"
      using Suc.prems(2) by simp
    show "lower (candidate base k) \<notin> used" by (rule Suc.prems(3))
  qed
  ultimately show ?case by (subst uniqueNameLoop.simps) simp
qed

lemma resolveName_first_free:
  assumes "\<And>j. j < k \<Longrightarrow> lower (candidate base j) \<in> used" "lower (candidate base k) \<notin> used"
  shows "resolveName lower used base = Some (candidate base k)"
  using loop_reaches_first_free [of 0 k lower base used] assms
  by (simp add: resolveName_def)

lemma free_candidate_exists:
  assumes "finite used" "inj (\<lambda>k. lower (candidate base k))"
  shows "\<exists>k. lower (candidate base k) \<notin> used"
proof -
  have "finite ((\<lambda>k. lower (candidate base k)) -` used)"
    using assms by (rule finite_vimageI)
  then obtain k where "k \<notin> (\<lambda>k. lower (candidate base k)) -` used"
    using ex_new_if_finite [OF infinite_UNIV_nat] by blast
  then show ?thesis by auto
qed

lemma resolveName_returns:
  assumes "finite used" "inj (\<lambda>k. lower (candidate base k))"
  shows "\<exists>k. resolveName lower used base = Some (candidate base k) \<and>
             lower (candidate base k) \<notin> used \<and> (\<forall>j<k. lower (candidate base j) \<in> used)"
proof -
  define k where "k = (LEAST k. lower (candidate base k) \<notin> used)"
  from free_candidate_exists [OF assms] have free: "lower (candidate base k) \<notin> used"
    unfolding k_def by (rule LeastI_ex)
  have before: "lower (candidate base j) \<in> used" if "j < k" for j
    using that not_less_Least unfolding k_def by blast
  from resolveName_first_free [of k lower base used] free before
  have "resolveName lower used base = Some (candidate base k)" by blast
  with free before show ?thesis by blast
qed

lemma loop_result:
  assumes "uniqueNameLoop lower used base u c = Some nm"
  shows "0 < c \<longrightarrow> u = candidate base (c - 1) \<longrightarrow>
     (\<exists>k. c - 1 \<le> k \<and> nm = candidate base k \<and> lower nm \<notin> used \<and>
        (\<forall>j. c - 1 \<le> j \<and> j < k \<longrightarrow> lower (candidate base j) \<in> used))"
proof (rule uniqueNameLoop.raw_induct [where P = "\<lambda>lower used base u c nm.
     0 < c \<longrightarrow> u = candidate base (c - 1) \<longrightarrow>
     (\<exists>k. c - 1 \<le> k \<and> nm = candidate base k \<and> lower nm \<notin> used \<and>
        (\<forall>j. c - 1 \<le> j \<and> j < k \<longrightarrow> lower (candidate base j) \<in> used))", OF _ assms])
  fix loop :: "(jsstring \<Rightarrow> jsstring) \<Rightarrow> jsstring set \<Rightarrow> jsstring \<Rightarrow> jsstring \<Rightarrow> nat \<Rightarrow> jsstring option"
  fix lower used base u c nm
  assume IH: "\<And>lower used base u c nm. loop lower used base u c = Some nm \<Longrightarrow>
     0 < c \<longrightarrow> u = candidate base (c - 1) \<longrightarrow>
     (\<exists>k. c - 1 \<le> k \<and> nm = candidate base k \<and> lower nm \<notin> used \<and>
        (\<forall>j. c - 1 \<le> j \<and> j < k \<longrightarrow> lower (candidate base j) \<in> used))"
  assume body: "(if lower u \<in> used then loop lower used base (withCounter base c) (c + 1) else Some u) = Some nm"
  show "0 < c \<longrightarrow> u = candidate base (c - 1) \<longrightarrow>
     (\<exists>k. c - 1 \<le> k \<and> nm = candidate base k \<and> lower nm \<notin> used \<and>
        (\<forall>j. c - 1 \<le> j \<and> j < k \<longrightarrow> lower (candidate base j) \<in> used))"
  proof (intro impI)
    assume pos: "0 < c" and u: "u = candidate base (c - 1)"
    show "\<exists>k. c - 1 \<le> k \<and> nm = candidate base k \<and> lower nm \<notin> used \<and>
        (\<forall>j. c - 1 \<le> j \<and> j < k \<longrightarrow> lower (candidate base j) \<in> used)"
    proof (cases "lower u \<in> used")
      case False
      with body have "nm = u" by simp
      with False u have "c - 1 \<le> c - 1 \<and> nm = candidate base (c - 1) \<and> lower nm \<notin> used \<and>
        (\<forall>j. c - 1 \<le> j \<and> j < c - 1 \<longrightarrow> lower (candidate base j) \<in> used)" by auto
      then show ?thesis by blast
    next
      case True
      with body have r: "loop lower used base (withCounter base c) (c + 1) = Some nm" by simp
      from pos have wc: "withCounter base c = candidate base (c + 1 - 1)"
        by (cases c) simp_all
      from IH [OF r] wc obtain k where k: "c \<le> k" "nm = candidate base k" "lower nm \<notin> used"
        "\<forall>j. c \<le> j \<and> j < k \<longrightarrow> lower (candidate base j) \<in> used"
        by auto
      have "\<forall>j. c - 1 \<le> j \<and> j < k \<longrightarrow> lower (candidate base j) \<in> used"
      proof (intro allI impI)
        fix j assume j: "c - 1 \<le> j \<and> j < k"
        show "lower (candidate base j) \<in> used"
        proof (cases "j = c - 1")
          case True
          with \<open>lower u \<in> used\<close> u show ?thesis by simp
        next
          case False
          with j have "c \<le> j" by linarith
          with j k(4) show ?thesis by simp
        qed
      qed
      with k have "c - 1 \<le> k \<and> nm = candidate base k \<and> lower nm \<notin> used \<and>
        (\<forall>j. c - 1 \<le> j \<and> j < k \<longrightarrow> lower (candidate base j) \<in> used)" by simp
      then show ?thesis by blast
    qed
  qed
qed

lemma resolveName_result:
  assumes "resolveName lower used base = Some nm"
  shows "\<exists>k. nm = candidate base k \<and> lower nm \<notin> used \<and> (\<forall>j<k. lower (candidate base j) \<in> used)"
  using loop_result [of lower used base base 1 nm] assms
  by (auto simp add: resolveName_def)

subsection \<open>The candidates stay apart under ASCII lowering\<close>

lemma digit_unat: "d < 10 \<Longrightarrow> unat (digitChar d) = 48 + d"
  unfolding digitChar_def unat_of_nat by simp

lemma digit_inj:
  assumes "a < 10" "b < 10" "digitChar a = digitChar b"
  shows "a = b"
proof -
  from assms(3) have "unat (digitChar a) = unat (digitChar b)" by simp
  with assms(1,2) show ?thesis by (simp add: digit_unat)
qed

lemma decimal_nonempty: "decimal n \<noteq> []"
  by (subst decimal.simps) simp

lemma decimal_small: "n < 10 \<Longrightarrow> decimal n = [digitChar n]"
  by (subst decimal.simps) simp

lemma decimal_large: "\<not> n < 10 \<Longrightarrow> decimal n = decimal (n div 10) @ [digitChar (n mod 10)]"
  by (subst decimal.simps) simp

lemma decimal_inj: "decimal n = decimal m \<Longrightarrow> n = m"
proof (induction n arbitrary: m rule: decimal.induct)
  case (1 n)
  show ?case
  proof (cases "n < 10")
    case True
    show ?thesis
    proof (cases "m < 10")
      case True
      with \<open>n < 10\<close> 1(2) show ?thesis by (simp add: decimal_small digit_inj)
    next
      case False
      with \<open>n < 10\<close> 1(2) have "[digitChar n] = decimal (m div 10) @ [digitChar (m mod 10)]"
        by (simp add: decimal_small decimal_large)
      then have "decimal (m div 10) = []" by simp
      with decimal_nonempty show ?thesis by blast
    qed
  next
    case False
    show ?thesis
    proof (cases "m < 10")
      case True
      with False 1(2) have "decimal (n div 10) @ [digitChar (n mod 10)] = [digitChar m]"
        by (simp add: decimal_small decimal_large)
      then have "decimal (n div 10) = []" by simp
      with decimal_nonempty show ?thesis by blast
    next
      case mlarge: False
      with False 1(2) have e: "decimal (n div 10) = decimal (m div 10)"
        "digitChar (n mod 10) = digitChar (m mod 10)"
        by (simp_all add: decimal_large)
      from 1(1) [OF False e(1)] have "n div 10 = m div 10" .
      moreover from e(2) have "n mod 10 = m mod 10"
        by (intro digit_inj) simp_all
      ultimately show ?thesis by (metis div_mult_mod_eq)
    qed
  qed
qed

lemma digit_range: "d < 10 \<Longrightarrow> \<not> (0x41 \<le> digitChar d \<and> digitChar d \<le> 0x5A)"
  by (simp add: word_le_nat_alt digit_unat)

lemma asciiLower_decimal: "asciiLower (decimal n) = decimal n"
proof (induction n rule: decimal.induct)
  case (1 n)
  show ?case
  proof (cases "n < 10")
    case True
    then show ?thesis using digit_range [of n] by (simp add: decimal_small asciiLower_def)
  next
    case False
    have "n mod 10 < 10" by simp
    from digit_range [OF this] 1 [OF False] False show ?thesis
      by (simp add: decimal_large asciiLower_def)
  qed
qed

lemma asciiLower_underscore: "asciiLower (underscore # s) = underscore # asciiLower s"
  by (simp add: asciiLower_def underscore_def)

lemma asciiLower_append: "asciiLower (s @ t) = asciiLower s @ asciiLower t"
  by (simp add: asciiLower_def)

lemma asciiLower_length: "length (asciiLower s) = length s"
  by (simp add: asciiLower_def)

lemma withCounter_length: "length (withCounter base k) = length base + 1 + length (decimal k)"
  by (auto simp add: withCounter_def split: option.splits)

lemma lastIndexOf_le: "lastIndexOf s c = Some i \<Longrightarrow> i < length s"
  by (induction s arbitrary: i) (auto split: option.splits if_splits)

lemma asciiLower_withCounter_inj:
  assumes "asciiLower (withCounter base j) = asciiLower (withCounter base k)"
  shows "j = k"
proof -
  have "decimal j = decimal k"
  proof (cases "lastIndexOf base dot")
    case None
    with assms have "asciiLower base @ asciiLower [underscore] @ decimal j =
                     asciiLower base @ asciiLower [underscore] @ decimal k"
      by (simp add: withCounter_def asciiLower_append asciiLower_decimal asciiLower_underscore)
    then show ?thesis by simp
  next
    case (Some d)
    with assms have "asciiLower (take d base) @ asciiLower [underscore] @ decimal j @ asciiLower (drop d base) =
                     asciiLower (take d base) @ asciiLower [underscore] @ decimal k @ asciiLower (drop d base)"
      by (simp add: withCounter_def asciiLower_append asciiLower_decimal asciiLower_underscore)
    then show ?thesis by simp
  qed
  then show ?thesis by (rule decimal_inj)
qed

lemma asciiLower_candidates_inj: "inj (\<lambda>k. asciiLower (candidate base k))"
proof (rule injI)
  fix j k assume e: "asciiLower (candidate base j) = asciiLower (candidate base k)"
  then have len: "length (candidate base j) = length (candidate base k)"
    by (metis asciiLower_length)
  show "j = k"
  proof (cases j)
    case 0
    show ?thesis
    proof (cases k)
      case 0 with \<open>j = 0\<close> show ?thesis by simp
    next
      case (Suc k')
      with 0 len show ?thesis by (simp add: withCounter_length)
    qed
  next
    case (Suc j')
    show ?thesis
    proof (cases k)
      case 0
      with Suc len show ?thesis by (simp add: withCounter_length)
    next
      case (Suc k')
      with \<open>j = Suc j'\<close> e asciiLower_withCounter_inj [of base "Suc j'" "Suc k'"]
      show ?thesis by simp
    qed
  qed
qed

subsection \<open>Where the counter goes\<close>

lemma lastIndexOf_None: "lastIndexOf s c = None \<longleftrightarrow> c \<notin> set s"
  by (induction s) (auto split: option.splits)

lemma lastIndexOf_after_stem:
  "c \<notin> set e \<Longrightarrow> lastIndexOf (stem @ c # e) c = Some (length stem)"
proof (induction stem)
  case Nil
  then have "lastIndexOf e c = None" by (simp add: lastIndexOf_None)
  then show ?case by simp
next
  case (Cons x stem)
  then show ?case by simp
qed

lemma lastIndexOf_tail_free:
  "lastIndexOf s c = Some i \<Longrightarrow> c \<notin> set (drop (Suc i) s)"
proof (induction s arbitrary: i)
  case Nil
  then show ?case by simp
next
  case (Cons x xs)
  show ?case
  proof (cases "lastIndexOf xs c")
    case None
    with Cons.prems have "i = 0" by (simp split: if_splits)
    with None show ?thesis by (simp add: lastIndexOf_None)
  next
    case (Some j)
    with Cons.prems have "i = Suc j" by simp
    with Cons.IH [OF Some] show ?thesis by simp
  qed
qed

text \<open>The extension cut from an original name holds no dot, so in a name that ends in a dot
  and such an extension the counter goes immediately before the extension; in a name without
  any dot it goes at the end.\<close>

lemma ext_has_no_dot: "dot \<notin> set (ext (chunkDatum f))"
  by (auto simp add: chunkDatum_def dest: lastIndexOf_tail_free split: option.splits)

lemma withCounter_before_extension:
  "dot \<notin> set e \<Longrightarrow>
   withCounter (stem @ dot # e) k = stem @ underscore # decimal k @ dot # e"
  by (simp add: withCounter_def lastIndexOf_after_stem)

lemma withCounter_without_dot:
  "dot \<notin> set base \<Longrightarrow> withCounter base k = base @ underscore # decimal k"
  by (simp add: withCounter_def lastIndexOf_None [THEN iffD2])

section \<open>The merge, record by record\<close>

lemma mergeFile_outside:
  "fileId file \<notin> ids \<Longrightarrow> mergeFile lower ids ds results used file = Some (file, used)"
  by (simp add: mergeFile_def)

lemma mergeFile_unmatched:
  "fileId file \<in> ids \<Longrightarrow> fileId file \<notin> resultId ` set results \<Longrightarrow>
   mergeFile lower ids ds results used file = Some (file\<lparr>status := Error\<rparr>, used)"
proof -
  assume a: "fileId file \<in> ids" "fileId file \<notin> resultId ` set results"
  from a(2) have "find (\<lambda>r. resultId r = fileId file) results = None"
    by (simp add: find_None_iff image_iff) metis
  with a(1) show ?thesis by (simp add: mergeFile_def)
qed

lemma mergeFile_matched:
  assumes "fileId file \<in> ids" "find (\<lambda>r. resultId r = fileId file) results = Some res"
  shows "mergeFile lower ids ds results used file =
     (case resolveName lower used (proposedName ds res file) of
        None \<Rightarrow> None
      | Some uniqueName \<Rightarrow>
          Some (file\<lparr>status := Completed, newName := Some uniqueName,
                     metadata := Some (sanitizedMetadata res)\<rparr>,
                insert (lower uniqueName) used))"
  using assms
  by (simp add: mergeFile_def proposedName_def sanitizedMetadata_def Let_def split: option.splits)

lemma find_matched:
  "x \<in> resultId ` set results \<Longrightarrow> \<exists>res. find (\<lambda>r. resultId r = x) results = Some res"
  by (cases "find (\<lambda>r. resultId r = x) results") (auto simp add: find_None_iff)

lemma mergeFile_returns:
  assumes "finite used" "\<And>base. inj (\<lambda>k. lower (candidate base k))"
  shows "\<exists>file' used'. mergeFile lower ids ds results used file = Some (file', used') \<and> finite used'"
proof (cases "fileId file \<in> ids")
  case False
  with assms(1) show ?thesis by (simp add: mergeFile_outside)
next
  case True
  show ?thesis
  proof (cases "fileId file \<in> resultId ` set results")
    case False
    with True assms(1) show ?thesis by (simp add: mergeFile_unmatched)
  next
    case matched: True
    from find_matched [OF matched] obtain res where
      res: "find (\<lambda>r. resultId r = fileId file) results = Some res" by blast
    from resolveName_returns [OF assms(1) assms(2)] obtain k where
      "resolveName lower used (proposedName ds res file) = Some (candidate (proposedName ds res file) k)"
      by blast
    with assms(1) show ?thesis
      by (simp add: mergeFile_matched [OF True res])
  qed
qed

lemma mergeFiles_returns:
  assumes "\<And>base. inj (\<lambda>k. lower (candidate base k))"
  shows "finite used \<Longrightarrow>
    \<exists>merged used'. mergeFiles lower ids ds results used prev = Some (merged, used') \<and>
      finite used' \<and> length merged = length prev"
proof (induction prev arbitrary: used)
  case Nil
  then show ?case by simp
next
  case (Cons x rest)
  from mergeFile_returns [OF Cons.prems assms] obtain x' u1 where
    f: "mergeFile lower ids ds results used x = Some (x', u1)" "finite u1" by blast
  from Cons.IH [OF f(2)] obtain rest' u2 where
    r: "mergeFiles lower ids ds results u1 rest = Some (rest', u2)" "finite u2" "length rest' = length rest"
    by blast
  from f r show ?case by simp
qed

lemma mergeFiles_append:
  "mergeFiles lower ids ds results used (xs @ ys) =
     (case mergeFiles lower ids ds results used xs of
        None \<Rightarrow> None
      | Some (xs', u1) \<Rightarrow>
          (case mergeFiles lower ids ds results u1 ys of
             None \<Rightarrow> None
           | Some (ys', u2) \<Rightarrow> Some (xs' @ ys', u2)))"
  by (induction xs arbitrary: used) (auto split: option.splits)

lemma mergeFiles_length:
  "mergeFiles lower ids ds results used prev = Some (merged, used') \<Longrightarrow> length merged = length prev"
  by (induction prev arbitrary: used merged) (auto split: option.splits)

lemma mergeFiles_nth:
  assumes "mergeFiles lower ids ds results used prev = Some (merged, used')" "i < length prev"
  shows "\<exists>usedBefore usedAfter.
           mergeFiles lower ids ds results used (take i prev) = Some (take i merged, usedBefore) \<and>
           mergeFile lower ids ds results usedBefore (prev ! i) = Some (merged ! i, usedAfter)"
proof -
  from assms(2) have sp: "prev = take i prev @ (prev ! i # drop (Suc i) prev)"
    by (simp add: id_take_nth_drop)
  from assms(1) have "mergeFiles lower ids ds results used (take i prev @ (prev ! i # drop (Suc i) prev)) =
      Some (merged, used')"
    using sp by simp
  then obtain xs' u1 f' u2 ys' where
    a: "mergeFiles lower ids ds results used (take i prev) = Some (xs', u1)"
    and b: "mergeFile lower ids ds results u1 (prev ! i) = Some (f', u2)"
    and c: "merged = xs' @ f' # ys'"
    by (auto simp add: mergeFiles_append split: option.splits)
  from mergeFiles_length [OF a] assms(2) have l: "length xs' = i" by simp
  with c have "take i merged = xs'" "merged ! i = f'" by (simp_all add: nth_append)
  with a b show ?thesis by blast
qed

text \<open>
  Claim C8. Let the registry be finite and let lowering keep the candidates of every base
  name apart. Then the merge of a successful response returns, with one record for each
  record of the queue, in the same place. A record whose identifier is not in the chunk is
  unchanged. A chunk record whose identifier no result carries is the same record with status
  Error. A chunk record whose identifier a result carries is the same record with status
  Completed, the sanitized fields of the first such result as metadata, and as name what the
  resolver returns for the name proposed from them, against the registry as the records
  before it have left it.
\<close>

theorem merge_per_record:
  assumes "finite used" "\<forall>base. inj (\<lambda>k. lower (candidate base k))"
  shows "\<exists>merged used'.
     mergeFiles lower ids ds results used prev = Some (merged, used') \<and>
     length merged = length prev \<and>
     (\<forall>i<length prev.
        (fileId (prev ! i) \<notin> ids \<longrightarrow> merged ! i = prev ! i) \<and>
        (fileId (prev ! i) \<in> ids \<and> fileId (prev ! i) \<notin> resultId ` set results \<longrightarrow>
           merged ! i = (prev ! i)\<lparr>status := Error\<rparr>) \<and>
        (fileId (prev ! i) \<in> ids \<and> fileId (prev ! i) \<in> resultId ` set results \<longrightarrow>
           (\<exists>res usedBefore uniqueName.
              find (\<lambda>r. resultId r = fileId (prev ! i)) results = Some res \<and>
              mergeFiles lower ids ds results used (take i prev) = Some (take i merged, usedBefore) \<and>
              resolveName lower usedBefore (proposedName ds res (prev ! i)) = Some uniqueName \<and>
              merged ! i = (prev ! i)\<lparr>status := Completed, newName := Some uniqueName,
                                       metadata := Some (sanitizedMetadata res)\<rparr>)))"
proof -
  from assms(2) have inj: "\<And>base. inj (\<lambda>k. lower (candidate base k))" by simp
  from mergeFiles_returns [OF inj assms(1)] obtain merged used' where
    m: "mergeFiles lower ids ds results used prev = Some (merged, used')" "length merged = length prev"
    by blast
  have "(fileId (prev ! i) \<notin> ids \<longrightarrow> merged ! i = prev ! i) \<and>
        (fileId (prev ! i) \<in> ids \<and> fileId (prev ! i) \<notin> resultId ` set results \<longrightarrow>
           merged ! i = (prev ! i)\<lparr>status := Error\<rparr>) \<and>
        (fileId (prev ! i) \<in> ids \<and> fileId (prev ! i) \<in> resultId ` set results \<longrightarrow>
           (\<exists>res usedBefore uniqueName.
              find (\<lambda>r. resultId r = fileId (prev ! i)) results = Some res \<and>
              mergeFiles lower ids ds results used (take i prev) = Some (take i merged, usedBefore) \<and>
              resolveName lower usedBefore (proposedName ds res (prev ! i)) = Some uniqueName \<and>
              merged ! i = (prev ! i)\<lparr>status := Completed, newName := Some uniqueName,
                                       metadata := Some (sanitizedMetadata res)\<rparr>))"
    if i: "i < length prev" for i
  proof -
    from mergeFiles_nth [OF m(1) i] obtain usedBefore usedAfter where
      before: "mergeFiles lower ids ds results used (take i prev) = Some (take i merged, usedBefore)"
      and here: "mergeFile lower ids ds results usedBefore (prev ! i) = Some (merged ! i, usedAfter)"
      by blast
    have outside: "merged ! i = prev ! i" if "fileId (prev ! i) \<notin> ids"
      using here that by (simp add: mergeFile_outside)
    have unmatched: "merged ! i = (prev ! i)\<lparr>status := Error\<rparr>"
      if "fileId (prev ! i) \<in> ids" "fileId (prev ! i) \<notin> resultId ` set results"
      using here that by (simp add: mergeFile_unmatched)
    have matched: "\<exists>res usedBefore uniqueName.
              find (\<lambda>r. resultId r = fileId (prev ! i)) results = Some res \<and>
              mergeFiles lower ids ds results used (take i prev) = Some (take i merged, usedBefore) \<and>
              resolveName lower usedBefore (proposedName ds res (prev ! i)) = Some uniqueName \<and>
              merged ! i = (prev ! i)\<lparr>status := Completed, newName := Some uniqueName,
                                       metadata := Some (sanitizedMetadata res)\<rparr>"
      if t: "fileId (prev ! i) \<in> ids" "fileId (prev ! i) \<in> resultId ` set results"
    proof -
      from find_matched [OF t(2)] obtain res where
        res: "find (\<lambda>r. resultId r = fileId (prev ! i)) results = Some res" by blast
      from here mergeFile_matched [OF t(1) res, of lower ds usedBefore]
      obtain uniqueName where
        "resolveName lower usedBefore (proposedName ds res (prev ! i)) = Some uniqueName"
        "merged ! i = (prev ! i)\<lparr>status := Completed, newName := Some uniqueName,
                                       metadata := Some (sanitizedMetadata res)\<rparr>"
        by (auto split: option.splits)
      with res before show ?thesis by blast
    qed
    from outside unmatched matched show ?thesis by blast
  qed
  with m show ?thesis by blast
qed

theorem merge_per_record_witness:
  "finite ({} :: jsstring set) \<and> (\<forall>base. inj (\<lambda>k. asciiLower (candidate base k))) \<and>
   (\<exists>merged used'.
      mergeFiles asciiLower {js ''a'', js ''b''} (map chunkDatum [fileA, fileB]) [resultHomeA] {} inFlightAB =
        Some (merged, used') \<and>
      map status merged = [Completed, Error, Pending] \<and>
      map newName merged = [Some (js ''Home--'' @ [0x9996, 0x9875] @ js ''--app.png''), None, None])"
proof -
  have fin: "finite ({} :: jsstring set)" by simp
  have inj: "\<forall>base. inj (\<lambda>k. asciiLower (candidate base k))"
    by (simp add: asciiLower_candidates_inj)
  from merge_per_record [OF fin inj, of "{js ''a'', js ''b''}" "map chunkDatum [fileA, fileB]"
      "[resultHomeA]" inFlightAB]
  obtain merged used' where
    m: "mergeFiles asciiLower {js ''a'', js ''b''} (map chunkDatum [fileA, fileB]) [resultHomeA] {} inFlightAB =
        Some (merged, used')"
    and len: "length merged = length inFlightAB"
    and each: "\<forall>i<length inFlightAB.
        (fileId (inFlightAB ! i) \<notin> {js ''a'', js ''b''} \<longrightarrow> merged ! i = inFlightAB ! i) \<and>
        (fileId (inFlightAB ! i) \<in> {js ''a'', js ''b''} \<and> fileId (inFlightAB ! i) \<notin> resultId ` set [resultHomeA] \<longrightarrow>
           merged ! i = (inFlightAB ! i)\<lparr>status := Error\<rparr>) \<and>
        (fileId (inFlightAB ! i) \<in> {js ''a'', js ''b''} \<and> fileId (inFlightAB ! i) \<in> resultId ` set [resultHomeA] \<longrightarrow>
           (\<exists>res usedBefore uniqueName.
              find (\<lambda>r. resultId r = fileId (inFlightAB ! i)) [resultHomeA] = Some res \<and>
              mergeFiles asciiLower {js ''a'', js ''b''} (map chunkDatum [fileA, fileB]) [resultHomeA] {} (take i inFlightAB) =
                Some (take i merged, usedBefore) \<and>
              resolveName asciiLower usedBefore (proposedName (map chunkDatum [fileA, fileB]) res (inFlightAB ! i)) = Some uniqueName \<and>
              merged ! i = (inFlightAB ! i)\<lparr>status := Completed, newName := Some uniqueName,
                                       metadata := Some (sanitizedMetadata res)\<rparr>))"
    by blast
  have l3: "length inFlightAB = 3" by (simp add: inFlightAB_def)
  have i0: "0 < length inFlightAB" and i1: "1 < length inFlightAB" and i2: "2 < length inFlightAB"
    by (simp_all add: l3)
  have a2: "fileId (inFlightAB ! 2) \<notin> {js ''a'', js ''b''}"
    by (simp add: inFlightAB_def fileC_def queued_def js_simps)
  from each [rule_format, OF i2, THEN conjunct1, rule_format, OF a2]
  have "merged ! 2 = inFlightAB ! 2" .
  then have s2: "status (merged ! 2) = Pending" "newName (merged ! 2) = None"
    by (simp_all add: inFlightAB_def fileC_def queued_def)
  have a1: "fileId (inFlightAB ! 1) \<in> {js ''a'', js ''b''} \<and>
            fileId (inFlightAB ! 1) \<notin> resultId ` set [resultHomeA]"
    by (simp add: inFlightAB_def queued_def resultHomeA_def js_simps)
  from each [rule_format, OF i1, THEN conjunct2, THEN conjunct1, rule_format, OF a1]
  have "merged ! 1 = (inFlightAB ! 1)\<lparr>status := Error\<rparr>" .
  then have s1: "status (merged ! 1) = Error" "newName (merged ! 1) = None"
    by (simp_all add: inFlightAB_def queued_def)
  have a0: "fileId (inFlightAB ! 0) \<in> {js ''a'', js ''b''} \<and>
            fileId (inFlightAB ! 0) \<in> resultId ` set [resultHomeA]"
    by (simp add: inFlightAB_def queued_def resultHomeA_def js_simps)
  from each [rule_format, OF i0, THEN conjunct2, THEN conjunct2, rule_format, OF a0]
  obtain res usedBefore uniqueName where
    r: "find (\<lambda>r. resultId r = fileId (inFlightAB ! 0)) [resultHomeA] = Some res"
      "mergeFiles asciiLower {js ''a'', js ''b''} (map chunkDatum [fileA, fileB]) [resultHomeA] {} (take 0 inFlightAB) =
                Some (take 0 merged, usedBefore)"
      "resolveName asciiLower usedBefore (proposedName (map chunkDatum [fileA, fileB]) res (inFlightAB ! 0)) = Some uniqueName"
      "merged ! 0 = (inFlightAB ! 0)\<lparr>status := Completed, newName := Some uniqueName,
                                       metadata := Some (sanitizedMetadata res)\<rparr>"
    by blast
  from r(1) have res: "res = resultHomeA"
    by (simp add: inFlightAB_def queued_def resultHomeA_def split: if_splits)
  from r(2) have ub: "usedBefore = {}" by simp
  have "proposedName (map chunkDatum [fileA, fileB]) resultHomeA (inFlightAB ! 0) =
        js ''Home--'' @ [0x9996, 0x9875] @ js ''--app.png''"
    by (simp add: proposedName_def sanitizedMetadata_def resultHomeA_def inFlightAB_def queued_def
        fileA_def fileB_def chunkDatum_def originalExtOf_def baseFinalNameOf_def sanitizePart_def
        replaceDisallowed_def keepChar_def isAlnumCjk_def trimUnderscoreEnds_def
        stripLeadingUnderscore_def stripTrailingUnderscore_def trimDots_def dot_def underscore_def
        js_simps Let_def)
  with r(3) res ub have "uniqueName = js ''Home--'' @ [0x9996, 0x9875] @ js ''--app.png''"
    by (simp add: resolveName_def uniqueNameLoop.simps)
  with r(4) have s0: "status (merged ! 0) = Completed"
    "newName (merged ! 0) = Some (js ''Home--'' @ [0x9996, 0x9875] @ js ''--app.png'')"
    by simp_all
  from len l3 have l: "length merged = 3" by simp
  then obtain x y z where xyz: "merged = [x, y, z]"
    by (auto simp add: length_Suc_conv eval_nat_numeral)
  with s0 s1 s2 have "map status merged = [Completed, Error, Pending] \<and>
      map newName merged = [Some (js ''Home--'' @ [0x9996, 0x9875] @ js ''--app.png''), None, None]"
    by simp
  with m have "\<exists>merged used'.
      mergeFiles asciiLower {js ''a'', js ''b''} (map chunkDatum [fileA, fileB]) [resultHomeA] {} inFlightAB =
        Some (merged, used') \<and>
      map status merged = [Completed, Error, Pending] \<and>
      map newName merged = [Some (js ''Home--'' @ [0x9996, 0x9875] @ js ''--app.png''), None, None]"
    by (intro exI [of _ merged] exI [of _ used']) simp
  with fin inj show ?thesis by (intro conjI)
qed

section \<open>The sanitizer\<close>

lemma collapse_noRun: "noUnderscoreRun (collapseUnderscores s)"
proof (induction s rule: collapseUnderscores.induct)
  case (3 c d cs)
  then show ?case
    by (cases "collapseUnderscores (d # cs)"; cases cs) (auto split: if_splits)
qed simp_all

lemma collapse_fixed: "noUnderscoreRun s \<Longrightarrow> collapseUnderscores s = s"
  by (induction s rule: collapseUnderscores.induct) auto

lemma set_collapse: "set (collapseUnderscores s) \<subseteq> set s"
  by (induction s rule: collapseUnderscores.induct) auto

lemma noRun_tl: "noUnderscoreRun (c # cs) \<Longrightarrow> noUnderscoreRun cs"
  by (cases cs) auto

lemma noRun_butlast: "noUnderscoreRun s \<Longrightarrow> noUnderscoreRun (butlast s)"
proof (induction s rule: noUnderscoreRun.induct)
  case (3 c d cs)
  then show ?case by (cases cs) auto
qed simp_all

lemma noRun_before_last:
  "noUnderscoreRun s \<Longrightarrow> s \<noteq> [] \<Longrightarrow> last s = underscore \<Longrightarrow> butlast s \<noteq> [] \<Longrightarrow>
   last (butlast s) \<noteq> underscore"
proof (induction s rule: noUnderscoreRun.induct)
  case (3 c d cs)
  then show ?case by (cases cs) auto
qed simp_all

lemma stripLeading_shape:
  assumes "noUnderscoreRun s"
  shows "noUnderscoreRun (stripLeadingUnderscore s) \<and>
         (stripLeadingUnderscore s = [] \<or> hd (stripLeadingUnderscore s) \<noteq> underscore)"
proof (cases s)
  case Nil
  then show ?thesis by (simp add: stripLeadingUnderscore_def)
next
  case (Cons c cs)
  show ?thesis
  proof (cases "c = underscore")
    case False
    with Cons assms show ?thesis by (simp add: stripLeadingUnderscore_def)
  next
    case True
    with Cons have e: "stripLeadingUnderscore s = cs" by (simp add: stripLeadingUnderscore_def)
    from assms Cons have "noUnderscoreRun cs" by (auto dest: noRun_tl)
    moreover from assms Cons True have "cs = [] \<or> hd cs \<noteq> underscore" by (cases cs) auto
    ultimately show ?thesis using e by simp
  qed
qed

lemma stripTrailing_shape:
  assumes "noUnderscoreRun z" "z = [] \<or> hd z \<noteq> underscore"
  shows "noUnderscoreRun (stripTrailingUnderscore z) \<and>
         (stripTrailingUnderscore z = [] \<or>
            hd (stripTrailingUnderscore z) \<noteq> underscore \<and> last (stripTrailingUnderscore z) \<noteq> underscore)"
proof (cases "z \<noteq> [] \<and> last z = underscore")
  case False
  with assms show ?thesis by (auto simp add: stripTrailingUnderscore_def)
next
  case True
  then have e: "stripTrailingUnderscore z = butlast z" by (simp add: stripTrailingUnderscore_def)
  have n: "noUnderscoreRun (butlast z)" using assms(1) by (rule noRun_butlast)
  show ?thesis
  proof (cases "butlast z = []")
    case True
    with e n show ?thesis by simp
  next
    case False
    with True assms(1) have l: "last (butlast z) \<noteq> underscore" by (simp add: noRun_before_last)
    from False have "hd (butlast z) = hd z" by (cases z) (auto split: if_splits)
    with assms(2) True have "hd (butlast z) \<noteq> underscore" by auto
    with e n l show ?thesis by simp
  qed
qed

lemma trimEnds_shape:
  assumes "noUnderscoreRun s"
  shows "noUnderscoreRun (trimUnderscoreEnds s) \<and>
         (trimUnderscoreEnds s = [] \<or>
            hd (trimUnderscoreEnds s) \<noteq> underscore \<and> last (trimUnderscoreEnds s) \<noteq> underscore)"
  using stripLeading_shape [OF assms] stripTrailing_shape [of "stripLeadingUnderscore s"]
  by (simp add: trimUnderscoreEnds_def)

lemma trimEnds_fixed:
  assumes "t = [] \<or> hd t \<noteq> underscore \<and> last t \<noteq> underscore"
  shows "trimUnderscoreEnds t = t"
  using assms
  by (cases t) (auto simp add: trimUnderscoreEnds_def stripLeadingUnderscore_def stripTrailingUnderscore_def)

lemma set_trimEnds: "set (trimUnderscoreEnds s) \<subseteq> set s"
proof -
  have "set (stripLeadingUnderscore s) \<subseteq> set s"
    by (cases s) (auto simp add: stripLeadingUnderscore_def)
  moreover have "set (stripTrailingUnderscore z) \<subseteq> set z" for z
    by (auto simp add: stripTrailingUnderscore_def dest: in_set_butlastD)
  ultimately show ?thesis unfolding trimUnderscoreEnds_def by blast
qed

lemma underscore_not_kept: "\<not> keepChar allowDots underscore"
  by (simp add: keepChar_def isAlnumCjk_def underscore_def dot_def)

lemma replace_fixed:
  assumes "\<forall>c\<in>set t. keepChar allowDots c \<or> c = underscore"
  shows "replaceDisallowed allowDots t = t"
  unfolding replaceDisallowed_def using assms by (intro map_idI) auto

lemma set_replace: "\<forall>c\<in>set (replaceDisallowed allowDots s). keepChar allowDots c \<or> c = underscore"
  by (auto simp add: replaceDisallowed_def)

lemma sanitize_Unknown: "sanitizePart (Some (js ''Unknown'')) allowDots = js ''Unknown''"
  by (cases allowDots)
    (simp_all add: sanitizePart_def js_def replaceDisallowed_def keepChar_def isAlnumCjk_def
      trimUnderscoreEnds_def stripLeadingUnderscore_def stripTrailingUnderscore_def trimDots_def
      dot_def underscore_def)

lemma sanitizePart_idempotent_without_dots:
  "sanitizePart (Some (sanitizePart x False)) False = sanitizePart x False"
proof (cases x)
  case None
  then have "sanitizePart x False = js ''Unknown''" by (simp add: sanitizePart_def)
  then show ?thesis by (simp add: sanitize_Unknown)
next
  case (Some s)
  define t where "t = trimUnderscoreEnds (collapseUnderscores (replaceDisallowed False s))"
  show ?thesis
  proof (cases "s = [] \<or> t = []")
    case True
    with Some have "sanitizePart x False = js ''Unknown''"
      by (auto simp add: sanitizePart_def t_def Let_def)
    then show ?thesis by (simp add: sanitize_Unknown)
  next
    case False
    with Some have r: "sanitizePart x False = t"
      by (simp add: sanitizePart_def t_def Let_def)
    have shape: "noUnderscoreRun t" "t = [] \<or> hd t \<noteq> underscore \<and> last t \<noteq> underscore"
      using trimEnds_shape [OF collapse_noRun, of "replaceDisallowed False s"]
      by (simp_all add: t_def)
    have "set t \<subseteq> set (replaceDisallowed False s)"
      unfolding t_def using set_trimEnds set_collapse by blast
    with set_replace [of False s] have "\<forall>c\<in>set t. keepChar False c \<or> c = underscore" by blast
    then have a: "replaceDisallowed False t = t" by (rule replace_fixed)
    have b: "collapseUnderscores t = t" using shape(1) by (rule collapse_fixed)
    have c: "trimUnderscoreEnds t = t" using shape(2) by (rule trimEnds_fixed)
    from False a b c have "sanitizePart (Some t) False = t"
      by (simp add: sanitizePart_def Let_def)
    with r show ?thesis by simp
  qed
qed

section \<open>The sanitizer and the resolver on concrete names\<close>

lemmas sanitize_eval =
  sanitizePart_def replaceDisallowed_def keepChar_def isAlnumCjk_def trimUnderscoreEnds_def
  stripLeadingUnderscore_def stripTrailingUnderscore_def trimDots_def dot_def underscore_def
  js_simps Let_def

text \<open>
  Claim C3, at the input on which the code departs from it. With dots allowed the sanitizer
  turns \<^verbatim>\<open>._a\<close> into \<^verbatim>\<open>_a\<close>, since the underscore is uncovered only when the dots
  go, after the underscores at the ends were looked for; sanitizing \<^verbatim>\<open>_a\<close> again gives
  \<^verbatim>\<open>a\<close>. An input of strippable characters only, \<^verbatim>\<open>._.\<close>, comes out as one
  underscore, not as the fallback token.
\<close>

theorem sanitizePart_with_dots_not_idempotent:
  "sanitizePart (Some (js ''._a'')) True = js ''_a'' \<and>
   sanitizePart (Some (sanitizePart (Some (js ''._a'')) True)) True = js ''a'' \<and>
   sanitizePart (Some (js ''._.'')) True = js ''_''"
  by (simp add: sanitize_eval)

lemmas resolve_eval =
  resolveName_def uniqueNameLoop.simps withCounter_def asciiLower_def decimal.simps digitChar_def
  dot_def underscore_def js_simps

lemmas run_eval =
  initialState_def acceptedFiles_def pngFile_def handleFilesSelected_def completedCount_def
  handleStartProcessing_def handleStopProcessing_def cycleEffect_def pendingFiles_def
  processNextBatch_def selectChunk_def markProcessing_def chunkDatum_def itemsToSend_def
  collectUsedNames_def revertProcessing_def settleFiles_def mergeFile_def originalExtOf_def
  baseFinalNameOf_def zombiesToError_def failChunk_def CHUNK_SIZE_def

text \<open>
  The end-to-end scenario of the specification, run on the model from the empty state: the
  three names come out as the specification gives them, and the run stops by itself.
\<close>

lemma end_to_end_scenario:
  "map_option (\<lambda>s. (map status (files s), map newName (files s), isProcessing s, isRequestInFlight s))
     (run asciiLower CHUNK_SIZE initialState scenarioTrace) =
     Some ([Completed, Completed, Completed],
           [Some (js ''Home--'' @ [0x9996, 0x9875] @ js ''--app.png''),
            Some (js ''Home--'' @ [0x9996, 0x9875] @ js ''--app_1.png''),
            Some (js ''Search--'' @ [0x641C, 0x7D22] @ js ''--web.png'')],
           False, False)"
  by (simp add: scenarioTrace_def run_eval sanitize_eval resolve_eval)

text \<open>The two examples of the specification, a base name without a dot, and a collision
  that differs in case only.\<close>

lemma resolver_examples:
  "resolveName asciiLower {asciiLower (js ''a--b--c.png'')} (js ''a--b--c.png'') = Some (js ''a--b--c_1.png'')"
  "resolveName asciiLower {asciiLower (js ''a--b--c.png''), asciiLower (js ''a--b--c_1.png'')} (js ''a--b--c.png'') =
     Some (js ''a--b--c_2.png'')"
  "resolveName asciiLower {asciiLower (js ''a--b--c'')} (js ''a--b--c'') = Some (js ''a--b--c_1'')"
  "resolveName asciiLower {asciiLower (js ''a--b--c.png'')} (js ''A--B--C.PNG'') = Some (js ''A--B--C_1.PNG'')"
  by (simp_all add: resolve_eval)

text \<open>
  Claim C4, at the input on which the code departs from it. The record's original name has no
  extension, so the extension component is empty; the sanitized domain is
  \<^verbatim>\<open>google.com\<close>, and the proposed name is already taken. The counter is put before
  the last dot of the whole name, which is the dot of the domain: the name returned ends in
  \<^verbatim>\<open>google_1.com\<close>, not in \<^verbatim>\<open>google.com_1\<close>. The same happens in a run from
  the empty state in which two extension-less files get the same labels.
\<close>

theorem counter_splits_dotted_domain:
  "originalExtOf (map chunkDatum [fileNoExt]) (fileId fileNoExt) = [] \<and>
   proposedName (map chunkDatum [fileNoExt]) resultGoogle fileNoExt =
     js ''Home--'' @ [0x9996, 0x9875] @ js ''--google.com'' \<and>
   resolveName asciiLower {asciiLower (js ''Home--'' @ [0x9996, 0x9875] @ js ''--google.com'')}
     (proposedName (map chunkDatum [fileNoExt]) resultGoogle fileNoExt) =
     Some (js ''Home--'' @ [0x9996, 0x9875] @ js ''--google_1.com'') \<and>
   map_option (\<lambda>s. map newName (files s)) (run asciiLower CHUNK_SIZE initialState noExtTrace) =
     Some [Some (js ''Home--'' @ [0x9996, 0x9875] @ js ''--google.com''),
           Some (js ''Home--'' @ [0x9996, 0x9875] @ js ''--google_1.com'')]"
proof -
  have e: "originalExtOf (map chunkDatum [fileNoExt]) (fileId fileNoExt) = []"
    by (simp add: originalExtOf_def chunkDatum_def fileNoExt_def queued_def dot_def js_simps)
  have p: "proposedName (map chunkDatum [fileNoExt]) resultGoogle fileNoExt =
     js ''Home--'' @ [0x9996, 0x9875] @ js ''--google.com''"
    unfolding proposedName_def e
    by (simp add: sanitizedMetadata_def resultGoogle_def baseFinalNameOf_def sanitize_eval)
  have r: "resolveName asciiLower {asciiLower (js ''Home--'' @ [0x9996, 0x9875] @ js ''--google.com'')}
     (js ''Home--'' @ [0x9996, 0x9875] @ js ''--google.com'') =
     Some (js ''Home--'' @ [0x9996, 0x9875] @ js ''--google_1.com'')"
    by (simp add: resolve_eval)
  have t: "map_option (\<lambda>s. map newName (files s)) (run asciiLower CHUNK_SIZE initialState noExtTrace) =
     Some [Some (js ''Home--'' @ [0x9996, 0x9875] @ js ''--google.com''),
           Some (js ''Home--'' @ [0x9996, 0x9875] @ js ''--google_1.com'')]"
    by (simp add: noExtTrace_def resultGoogleM_def resultGoogle_def run_eval sanitize_eval resolve_eval)
  from e p r t show ?thesis by simp
qed

section \<open>Stop and a late answer\<close>

text \<open>
  Claim C2 as stated fails: the record a is sent, stop reverts it to Pending, and the answer
  that arrives afterwards makes the Pending record Completed.
\<close>

theorem late_merge_overrides_reverted_record:
  "map_option (\<lambda>s. map status (files s)) (run asciiLower CHUNK_SIZE initialState stoppedTrace) =
     Some [Pending] \<and>
   map_option (\<lambda>s. map status (files s))
     (run asciiLower CHUNK_SIZE initialState (stoppedTrace @ [OracleSettles 0 (Inr [resultHomeA])])) =
     Some [Completed]"
  by (simp add: stoppedTrace_def resultHomeA_def run_eval sanitize_eval resolve_eval)

lemma revertProcessing_nth:
  "i < length fs \<Longrightarrow>
   revertProcessing fs ! i = (if status (fs ! i) = Processing then (fs ! i)\<lparr>status := Pending\<rparr> else fs ! i)"
  by (simp add: revertProcessing_def)

lemma revertProcessing_fileId:
  "i < length fs \<Longrightarrow> fileId (revertProcessing fs ! i) = fileId (fs ! i)"
  by (simp add: revertProcessing_def)

text \<open>
  Claim C2, amended. Stop clears the flag and reverts every Processing record to Pending,
  leaving every other record as it is. The call in flight is not cancelled: a successful
  answer that arrives on the queue as stop left it (with a finite registry, and lowering
  keeping the candidates apart) is still merged into the chunk records that stop has
  reverted to Pending: such a record becomes Completed with a name when a result carries its
  identifier and Error when none does. The records whose identifier is not in the chunk are
  left as stop left them. Nothing is said here of a chunk record that was not in Processing
  when stop ran.
\<close>

theorem stop_then_late_merge:
  assumes "finite (callUsedNames call)" "\<forall>base. inj (\<lambda>k. lower (candidate base k))"
  shows "\<not> isProcessing (handleStopProcessing s) \<and>
     length (files (handleStopProcessing s)) = length (files s) \<and>
     (\<forall>i<length (files s).
        files (handleStopProcessing s) ! i =
          (if status (files s ! i) = Processing then (files s ! i)\<lparr>status := Pending\<rparr> else files s ! i)) \<and>
     (\<exists>merged.
        settleFiles lower call (Inr results) (files (handleStopProcessing s)) = Some merged \<and>
        length merged = length (files s) \<and>
        (\<forall>i<length (files s).
           (fileId (files s ! i) \<notin> callChunkIds call \<longrightarrow>
              merged ! i = files (handleStopProcessing s) ! i) \<and>
           (status (files s ! i) = Processing \<and> fileId (files s ! i) \<in> callChunkIds call \<and>
            fileId (files s ! i) \<notin> resultId ` set results \<longrightarrow>
              merged ! i = (files (handleStopProcessing s) ! i)\<lparr>status := Error\<rparr>) \<and>
           (status (files s ! i) = Processing \<and> fileId (files s ! i) \<in> callChunkIds call \<and>
            fileId (files s ! i) \<in> resultId ` set results \<longrightarrow>
              status (merged ! i) = Completed \<and> newName (merged ! i) \<noteq> None)))"
proof -
  let ?stopped = "files (handleStopProcessing s)"
  have st: "?stopped = revertProcessing (files s)" by (simp add: handleStopProcessing_def)
  have len: "length ?stopped = length (files s)" by (simp add: st revertProcessing_def)
  from assms(2) have inj: "\<And>base. inj (\<lambda>k. lower (candidate base k))" by simp
  from mergeFiles_returns [OF inj assms(1), of "callChunkIds call" "callChunkData call" results ?stopped]
  obtain merged used' where
    m: "mergeFiles lower (callChunkIds call) (callChunkData call) results (callUsedNames call) ?stopped =
          Some (merged, used')"
    and ml: "length merged = length ?stopped"
    by blast
  have settled: "settleFiles lower call (Inr results) ?stopped = Some merged"
    by (simp add: settleFiles_def m)
  have each: "(fileId (files s ! i) \<notin> callChunkIds call \<longrightarrow> merged ! i = ?stopped ! i) \<and>
           (status (files s ! i) = Processing \<and> fileId (files s ! i) \<in> callChunkIds call \<and>
            fileId (files s ! i) \<notin> resultId ` set results \<longrightarrow>
              merged ! i = (?stopped ! i)\<lparr>status := Error\<rparr>) \<and>
           (status (files s ! i) = Processing \<and> fileId (files s ! i) \<in> callChunkIds call \<and>
            fileId (files s ! i) \<in> resultId ` set results \<longrightarrow>
              status (merged ! i) = Completed \<and> newName (merged ! i) \<noteq> None)"
    if i: "i < length (files s)" for i
  proof -
    from i len have i': "i < length ?stopped" by simp
    from i have fid: "fileId (?stopped ! i) = fileId (files s ! i)"
      by (simp add: st revertProcessing_fileId)
    from mergeFiles_nth [OF m i'] obtain usedBefore usedAfter where
      here: "mergeFile lower (callChunkIds call) (callChunkData call) results usedBefore (?stopped ! i) =
               Some (merged ! i, usedAfter)"
      by blast
    have outside: "merged ! i = ?stopped ! i" if "fileId (files s ! i) \<notin> callChunkIds call"
      using here that fid by (simp add: mergeFile_outside)
    have unmatched: "merged ! i = (?stopped ! i)\<lparr>status := Error\<rparr>"
      if "fileId (files s ! i) \<in> callChunkIds call" "fileId (files s ! i) \<notin> resultId ` set results"
      using here that fid by (simp add: mergeFile_unmatched)
    have matched: "status (merged ! i) = Completed \<and> newName (merged ! i) \<noteq> None"
      if t: "fileId (files s ! i) \<in> callChunkIds call" "fileId (files s ! i) \<in> resultId ` set results"
    proof -
      from t fid have t': "fileId (?stopped ! i) \<in> callChunkIds call"
        "fileId (?stopped ! i) \<in> resultId ` set results" by simp_all
      from find_matched [OF t'(2)] obtain res where
        res: "find (\<lambda>r. resultId r = fileId (?stopped ! i)) results = Some res" by blast
      from here mergeFile_matched [OF t'(1) res, of lower "callChunkData call" usedBefore]
      obtain uniqueName where
        e: "(?stopped ! i)\<lparr>status := Completed, newName := Some uniqueName,
                              metadata := Some (sanitizedMetadata res)\<rparr> = merged ! i"
        by (auto split: option.splits)
      show ?thesis unfolding e [symmetric] by simp
    qed
    from outside unmatched matched show ?thesis by blast
  qed
  have stop_each: "\<forall>i<length (files s). ?stopped ! i =
          (if status (files s ! i) = Processing then (files s ! i)\<lparr>status := Pending\<rparr> else files s ! i)"
    by (simp add: st revertProcessing_nth)
  have np: "\<not> isProcessing (handleStopProcessing s)" by (simp add: handleStopProcessing_def)
  from settled ml len each have "\<exists>merged.
        settleFiles lower call (Inr results) ?stopped = Some merged \<and>
        length merged = length (files s) \<and>
        (\<forall>i<length (files s).
           (fileId (files s ! i) \<notin> callChunkIds call \<longrightarrow> merged ! i = ?stopped ! i) \<and>
           (status (files s ! i) = Processing \<and> fileId (files s ! i) \<in> callChunkIds call \<and>
            fileId (files s ! i) \<notin> resultId ` set results \<longrightarrow>
              merged ! i = (?stopped ! i)\<lparr>status := Error\<rparr>) \<and>
           (status (files s ! i) = Processing \<and> fileId (files s ! i) \<in> callChunkIds call \<and>
            fileId (files s ! i) \<in> resultId ` set results \<longrightarrow>
              status (merged ! i) = Completed \<and> newName (merged ! i) \<noteq> None))"
    by (intro exI [of _ merged]) simp
  with np len stop_each show ?thesis by (intro conjI)
qed

theorem stop_then_late_merge_witness:
  "finite (callUsedNames callAB) \<and> (\<forall>base. inj (\<lambda>k. asciiLower (candidate base k))) \<and>
   map status (files inFlightState) = [Processing, Processing, Pending] \<and>
   map status (files (handleStopProcessing inFlightState)) = [Pending, Pending, Pending] \<and>
   (\<exists>merged.
      settleFiles asciiLower callAB (Inr [resultHomeA]) (files (handleStopProcessing inFlightState)) =
        Some merged \<and>
      map status merged = [Completed, Error, Pending])"
proof -
  have fin: "finite (callUsedNames callAB)" by (simp add: callAB_def)
  have inj: "\<forall>base. inj (\<lambda>k. asciiLower (candidate base k))"
    by (simp add: asciiLower_candidates_inj)
  have before: "map status (files inFlightState) = [Processing, Processing, Pending]"
    by (simp add: inFlightState_def inFlightAB_def fileC_def queued_def)
  have fs: "files inFlightState = inFlightAB" by (simp add: inFlightState_def)
  have l3: "length (files inFlightState) = 3" by (simp add: fs inFlightAB_def)
  note t = stop_then_late_merge [OF fin inj, of inFlightState "[resultHomeA]"]
  from t have len: "length (files (handleStopProcessing inFlightState)) = length (files inFlightState)"
    by simp
  from t have stop_each: "\<forall>i<length (files inFlightState).
        files (handleStopProcessing inFlightState) ! i =
          (if status (files inFlightState ! i) = Processing
           then (files inFlightState ! i)\<lparr>status := Pending\<rparr> else files inFlightState ! i)"
    by simp
  have i0: "0 < length (files inFlightState)" and i1: "1 < length (files inFlightState)"
    and i2: "2 < length (files inFlightState)"
    by (simp_all add: l3)
  from stop_each [rule_format, OF i0] stop_each [rule_format, OF i1] stop_each [rule_format, OF i2]
  have p: "status (files (handleStopProcessing inFlightState) ! 0) = Pending"
    "status (files (handleStopProcessing inFlightState) ! 1) = Pending"
    "status (files (handleStopProcessing inFlightState) ! 2) = Pending"
    by (simp_all add: fs inFlightAB_def fileC_def queued_def)
  from len l3 obtain x y z where xyz: "files (handleStopProcessing inFlightState) = [x, y, z]"
    by (auto simp add: length_Suc_conv eval_nat_numeral)
  with p have after: "map status (files (handleStopProcessing inFlightState)) = [Pending, Pending, Pending]"
    by simp
  from t obtain merged where
    m: "settleFiles asciiLower callAB (Inr [resultHomeA]) (files (handleStopProcessing inFlightState)) =
          Some merged"
    and ml: "length merged = length (files inFlightState)"
    and each: "\<forall>i<length (files inFlightState).
           (fileId (files inFlightState ! i) \<notin> callChunkIds callAB \<longrightarrow>
              merged ! i = files (handleStopProcessing inFlightState) ! i) \<and>
           (status (files inFlightState ! i) = Processing \<and>
            fileId (files inFlightState ! i) \<in> callChunkIds callAB \<and>
            fileId (files inFlightState ! i) \<notin> resultId ` set [resultHomeA] \<longrightarrow>
              merged ! i = (files (handleStopProcessing inFlightState) ! i)\<lparr>status := Error\<rparr>) \<and>
           (status (files inFlightState ! i) = Processing \<and>
            fileId (files inFlightState ! i) \<in> callChunkIds callAB \<and>
            fileId (files inFlightState ! i) \<in> resultId ` set [resultHomeA] \<longrightarrow>
              status (merged ! i) = Completed \<and> newName (merged ! i) \<noteq> None)"
    by blast
  have a2: "fileId (files inFlightState ! 2) \<notin> callChunkIds callAB"
    by (simp add: fs inFlightAB_def fileC_def queued_def callAB_def js_simps)
  have a1: "status (files inFlightState ! 1) = Processing \<and>
            fileId (files inFlightState ! 1) \<in> callChunkIds callAB \<and>
            fileId (files inFlightState ! 1) \<notin> resultId ` set [resultHomeA]"
    by (simp add: fs inFlightAB_def queued_def callAB_def resultHomeA_def js_simps)
  have a0: "status (files inFlightState ! 0) = Processing \<and>
            fileId (files inFlightState ! 0) \<in> callChunkIds callAB \<and>
            fileId (files inFlightState ! 0) \<in> resultId ` set [resultHomeA]"
    by (simp add: fs inFlightAB_def queued_def callAB_def resultHomeA_def js_simps)
  from each [rule_format, OF i2, THEN conjunct1, rule_format, OF a2] p(3)
  have s2: "status (merged ! 2) = Pending" by simp
  from each [rule_format, OF i1, THEN conjunct2, THEN conjunct1, rule_format, OF a1]
  have s1: "status (merged ! 1) = Error" by simp
  from each [rule_format, OF i0, THEN conjunct2, THEN conjunct2, rule_format, OF a0]
  have s0: "status (merged ! 0) = Completed" by simp
  from ml l3 obtain u v w where "merged = [u, v, w]"
    by (auto simp add: length_Suc_conv eval_nat_numeral)
  with s0 s1 s2 have "map status merged = [Completed, Error, Pending]" by simp
  with m have "\<exists>merged.
      settleFiles asciiLower callAB (Inr [resultHomeA]) (files (handleStopProcessing inFlightState)) =
        Some merged \<and>
      map status merged = [Completed, Error, Pending]"
    by (intro exI [of _ merged]) simp
  with fin inj before after show ?thesis by (intro conjI)
qed

section \<open>The dedup invariant when the registry is current\<close>

lemma completedNames_Cons:
  "completedNames (f # fs) =
     (if status f = Completed then (case newName f of Some nm \<Rightarrow> [nm] | None \<Rightarrow> []) else []) @
     completedNames fs"
  by (simp add: completedNames_def)

lemma completedNames_Nil: "completedNames [] = []"
  by (simp add: completedNames_def)

lemma candidate_nonempty: "base \<noteq> [] \<Longrightarrow> candidate base k \<noteq> []"
  by (cases k) (auto simp add: withCounter_def split: option.splits)

lemma proposedName_nonempty: "proposedName ds res f \<noteq> []"
  by (simp add: proposedName_def baseFinalNameOf_def js_simps)

lemma mergeFile_cases:
  assumes "mergeFile lower ids ds results used f = Some (f', used1)"
  shows "(f' = f \<and> used1 = used) \<or>
         (status f' = Error \<and> used1 = used) \<or>
         (\<exists>nm. status f' = Completed \<and> newName f' = Some nm \<and> lower nm \<notin> used \<and>
               nm \<noteq> [] \<and> used1 = insert (lower nm) used)"
proof (cases "fileId f \<in> ids")
  case False
  with assms show ?thesis by (simp add: mergeFile_outside)
next
  case True
  show ?thesis
  proof (cases "fileId f \<in> resultId ` set results")
    case False
    with True assms show ?thesis by (auto simp add: mergeFile_unmatched)
  next
    case matched: True
    from find_matched [OF matched] obtain res where
      res: "find (\<lambda>r. resultId r = fileId f) results = Some res" by blast
    from assms mergeFile_matched [OF True res, of lower ds used]
    obtain nm where nm: "resolveName lower used (proposedName ds res f) = Some nm"
      and f': "f\<lparr>status := Completed, newName := Some nm, metadata := Some (sanitizedMetadata res)\<rparr> = f'"
      and u: "used1 = insert (lower nm) used"
      by (auto split: option.splits)
    from resolveName_result [OF nm] obtain k where
      k: "nm = candidate (proposedName ds res f) k" "lower nm \<notin> used" by blast
    from k(1) have "nm \<noteq> []" by (simp add: candidate_nonempty proposedName_nonempty)
    moreover from f' have "status f' = Completed \<and> newName f' = Some nm" by auto
    ultimately show ?thesis using u k(2) by blast
  qed
qed

lemma mergeFiles_names:
  assumes "mergeFiles lower ids ds results used prev = Some (merged, used')"
    and "distinct (map lower (completedNames prev))"
    and "lower ` set (completedNames prev) \<subseteq> used"
  shows "distinct (map lower (completedNames merged)) \<and>
         (\<forall>x\<in>lower ` set (completedNames merged). x \<in> lower ` set (completedNames prev) \<or> x \<notin> used)"
  using assms
proof (induction prev arbitrary: used merged used')
  case Nil
  then show ?case by (simp add: completedNames_Nil)
next
  case (Cons f rest)
  from Cons.prems(1) obtain f' used1 rest' where
    hd: "mergeFile lower ids ds results used f = Some (f', used1)"
    and tl: "mergeFiles lower ids ds results used1 rest = Some (rest', used')"
    and m: "merged = f' # rest'"
    by (auto split: option.splits)
  define h where
    "h = (if status f = Completed then (case newName f of Some nm \<Rightarrow> [nm] | None \<Rightarrow> []) else [])"
  have split: "completedNames (f # rest) = h @ completedNames rest"
    unfolding h_def by (rule completedNames_Cons)
  from Cons.prems(2) have drest: "distinct (map lower (completedNames rest))"
    and hdist: "distinct (map lower h)"
    and hrest: "lower ` set h \<inter> lower ` set (completedNames rest) = {}"
    unfolding split by simp_all
  from Cons.prems(3) have srest: "lower ` set (completedNames rest) \<subseteq> used"
    and hsub: "lower ` set h \<subseteq> used"
    unfolding split by auto
  from mergeFile_cases [OF hd] have grow: "used \<subseteq> used1" by auto
  with srest have srest1: "lower ` set (completedNames rest) \<subseteq> used1" by blast
  from Cons.IH [OF tl drest srest1]
  have ih1: "distinct (map lower (completedNames rest'))"
    and ih2: "\<forall>x\<in>lower ` set (completedNames rest'). x \<in> lower ` set (completedNames rest) \<or> x \<notin> used1"
    by simp_all
  from mergeFile_cases [OF hd] consider
    (same) "f' = f" "used1 = used"
    | (failed) "status f' = Error" "used1 = used"
    | (named) nm where "status f' = Completed" "newName f' = Some nm" "lower nm \<notin> used"
        "nm \<noteq> []" "used1 = insert (lower nm) used"
    by blast
  then show ?case
  proof cases
    case failed
    then have "completedNames merged = completedNames rest'"
      by (simp add: m completedNames_Cons)
    with ih1 ih2 failed(2) show ?thesis unfolding split by auto
  next
    case named
    then have cn: "completedNames merged = nm # completedNames rest'"
      by (simp add: m completedNames_Cons)
    have fresh: "lower nm \<notin> lower ` set (completedNames rest')"
    proof
      assume "lower nm \<in> lower ` set (completedNames rest')"
      with ih2 have "lower nm \<in> lower ` set (completedNames rest) \<or> lower nm \<notin> used1" by blast
      with srest named(3,5) show False by auto
    qed
    have "\<forall>x\<in>lower ` set (completedNames merged).
            x \<in> lower ` set (completedNames (f # rest)) \<or> x \<notin> used"
    proof
      fix x assume "x \<in> lower ` set (completedNames merged)"
      with cn have "x = lower nm \<or> x \<in> lower ` set (completedNames rest')" by auto
      then show "x \<in> lower ` set (completedNames (f # rest)) \<or> x \<notin> used"
      proof
        assume "x = lower nm" with named(3) show ?thesis by simp
      next
        assume "x \<in> lower ` set (completedNames rest')"
        with ih2 have "x \<in> lower ` set (completedNames rest) \<or> x \<notin> used1" by blast
        with grow show ?thesis unfolding split by auto
      qed
    qed
    with cn ih1 fresh show ?thesis by simp
  next
    case same
    then have cn: "completedNames merged = h @ completedNames rest'"
      unfolding h_def by (simp add: m completedNames_Cons)
    have apart: "lower ` set h \<inter> lower ` set (completedNames rest') = {}"
    proof (rule ccontr)
      assume "lower ` set h \<inter> lower ` set (completedNames rest') \<noteq> {}"
      then obtain x where x: "x \<in> lower ` set h" "x \<in> lower ` set (completedNames rest')" by blast
      from x(2) ih2 have "x \<in> lower ` set (completedNames rest) \<or> x \<notin> used1" by blast
      with x(1) hrest hsub same(2) show False by blast
    qed
    have d: "distinct (map lower (completedNames merged))"
      unfolding cn using hdist ih1 apart by simp
    have "\<forall>x\<in>lower ` set (completedNames merged).
            x \<in> lower ` set (completedNames (f # rest)) \<or> x \<notin> used"
    proof
      fix x assume "x \<in> lower ` set (completedNames merged)"
      with cn have "x \<in> lower ` set h \<or> x \<in> lower ` set (completedNames rest')" by auto
      then show "x \<in> lower ` set (completedNames (f # rest)) \<or> x \<notin> used"
      proof
        assume "x \<in> lower ` set h"
        then show ?thesis unfolding split by auto
      next
        assume "x \<in> lower ` set (completedNames rest')"
        with ih2 same(2) have "x \<in> lower ` set (completedNames rest) \<or> x \<notin> used" by blast
        then show ?thesis unfolding split by auto
      qed
    qed
    with d show ?thesis by simp
  qed
qed

text \<open>A merge against a registry that holds the lowered names of all Completed records
  keeps the names of the Completed records apart.\<close>

lemma merge_keeps_dedup:
  assumes "mergeFiles lower ids ds results used prev = Some (merged, used')"
    and "dedupOk lower prev" and "lower ` set (completedNames prev) \<subseteq> used"
  shows "dedupOk lower merged"
  using mergeFiles_names [OF assms(1)] assms(2,3) by (simp add: dedupOk_def)

lemma collectUsedNames_fold:
  "fold (\<lambda>f used.
        case newName f of
          Some nm \<Rightarrow> if nm \<noteq> [] \<and> status f = Completed then insert (lower nm) used else used
        | None \<Rightarrow> used) fs acc =
   acc \<union> lower ` {nm \<in> set (completedNames fs). nm \<noteq> []}"
proof (induction fs arbitrary: acc)
  case Nil
  show ?case by (simp add: completedNames_Nil)
next
  case (Cons f fs)
  show ?case
    by (cases "newName f"; cases "status f = Completed")
       (auto simp add: Cons.IH completedNames_def)
qed

lemma collectUsedNames_covers:
  "[] \<notin> set (completedNames fs) \<Longrightarrow> lower ` set (completedNames fs) \<subseteq> collectUsedNames lower fs"
  unfolding collectUsedNames_def collectUsedNames_fold by auto

lemma collectUsedNames_finite: "finite (collectUsedNames lower fs)"
  unfolding collectUsedNames_def collectUsedNames_fold by simp

text \<open>So the answer of a call whose registry is that of the queue as it is at the merge
  keeps the invariant: this is the case of cycles that follow one another.\<close>

lemma current_registry_keeps_dedup:
  assumes "callUsedNames call = collectUsedNames lower fs" "[] \<notin> set (completedNames fs)"
    and "dedupOk lower fs" "settleFiles lower call (Inr results) fs = Some fs'"
  shows "dedupOk lower fs'"
proof -
  from assms(4) obtain used' where
    m: "mergeFiles lower (callChunkIds call) (callChunkData call) results (callUsedNames call) fs =
          Some (fs', used')"
    by (auto simp add: settleFiles_def)
  from collectUsedNames_covers [OF assms(2)] assms(1)
  have "lower ` set (completedNames fs) \<subseteq> callUsedNames call" by simp
  with merge_keeps_dedup [OF m assms(3)] show ?thesis by simp
qed

subsection \<open>Runs in which stop is never pressed\<close>

text \<open>Records that stay as they are or leave Completed.\<close>

lemma completedNames_demote:
  assumes "\<forall>f\<in>set fs. h f = f \<or> status (h f) \<noteq> Completed"
  shows "set (completedNames (map h fs)) \<subseteq> set (completedNames fs) \<and>
         (distinct (map lower (completedNames fs)) \<longrightarrow> distinct (map lower (completedNames (map h fs))))"
  using assms
proof (induction fs)
  case Nil
  show ?case by (simp add: completedNames_Nil)
next
  case (Cons f fs)
  define g where "g = (if status f = Completed then (case newName f of Some nm \<Rightarrow> [nm] | None \<Rightarrow> []) else [])"
  have old: "completedNames (f # fs) = g @ completedNames fs"
    unfolding g_def by (rule completedNames_Cons)
  from Cons.prems have ih: "set (completedNames (map h fs)) \<subseteq> set (completedNames fs)"
    "distinct (map lower (completedNames fs)) \<longrightarrow> distinct (map lower (completedNames (map h fs)))"
    using Cons.IH by simp_all
  from Cons.prems have "h f = f \<or> status (h f) \<noteq> Completed" by simp
  then show ?case
  proof
    assume "h f = f"
    then have new: "completedNames (map h (f # fs)) = g @ completedNames (map h fs)"
      unfolding g_def by (simp add: completedNames_Cons)
    show ?thesis unfolding old new using ih by auto
  next
    assume "status (h f) \<noteq> Completed"
    then have new: "completedNames (map h (f # fs)) = completedNames (map h fs)"
      by (simp add: completedNames_Cons)
    show ?thesis unfolding old new using ih by auto
  qed
qed

lemma completedNames_filter:
  "set (completedNames (filter P fs)) \<subseteq> set (completedNames fs) \<and>
   (distinct (map lower (completedNames fs)) \<longrightarrow> distinct (map lower (completedNames (filter P fs))))"
proof (induction fs)
  case Nil
  show ?case by (simp add: completedNames_Nil)
next
  case (Cons f fs)
  define g where "g = (if status f = Completed then (case newName f of Some nm \<Rightarrow> [nm] | None \<Rightarrow> []) else [])"
  have old: "completedNames (f # fs) = g @ completedNames fs"
    unfolding g_def by (rule completedNames_Cons)
  show ?case
  proof (cases "P f")
    case True
    then have new: "completedNames (filter P (f # fs)) = g @ completedNames (filter P fs)"
      unfolding g_def by (simp add: completedNames_Cons)
    show ?thesis unfolding old new using Cons.IH by auto
  next
    case False
    then have new: "completedNames (filter P (f # fs)) = completedNames (filter P fs)" by simp
    show ?thesis unfolding old new using Cons.IH by auto
  qed
qed

lemma completedNames_append: "completedNames (xs @ ys) = completedNames xs @ completedNames ys"
  by (simp add: completedNames_def)

lemma completedNames_selected: "completedNames (handleFilesSelected newFiles prev) = completedNames prev"
  by (simp add: handleFilesSelected_def completedNames_def filter_empty_conv split_def)

lemma mergeFiles_nonempty_names:
  "mergeFiles lower ids ds results used prev = Some (merged, used') \<Longrightarrow>
   [] \<notin> set (completedNames prev) \<Longrightarrow> [] \<notin> set (completedNames merged)"
proof (induction prev arbitrary: used merged used')
  case Nil
  then show ?case by (simp add: completedNames_Nil)
next
  case (Cons f rest)
  from Cons.prems(1) obtain f' used1 rest' where
    hd: "mergeFile lower ids ds results used f = Some (f', used1)"
    and tl: "mergeFiles lower ids ds results used1 rest = Some (rest', used')"
    and m: "merged = f' # rest'"
    by (auto split: option.splits)
  define g where "g = (if status f = Completed then (case newName f of Some nm \<Rightarrow> [nm] | None \<Rightarrow> []) else [])"
  have old: "completedNames (f # rest) = g @ completedNames rest"
    unfolding g_def by (rule completedNames_Cons)
  from Cons.prems(2) have g: "[] \<notin> set g" and r: "[] \<notin> set (completedNames rest)"
    unfolding old by simp_all
  from Cons.IH [OF tl r] have ih: "[] \<notin> set (completedNames rest')" .
  from mergeFile_cases [OF hd] consider
    (same) "f' = f" | (failed) "status f' = Error"
    | (named) nm where "status f' = Completed" "newName f' = Some nm" "nm \<noteq> []"
    by blast
  then show ?case
  proof cases
    case same
    then have "completedNames merged = g @ completedNames rest'"
      unfolding g_def by (simp add: m completedNames_Cons)
    with g ih show ?thesis by simp
  next
    case failed
    then have "completedNames merged = completedNames rest'" by (simp add: m completedNames_Cons)
    with ih show ?thesis by simp
  next
    case named
    then have "completedNames merged = nm # completedNames rest'" by (simp add: m completedNames_Cons)
    with ih named(3) show ?thesis by auto
  qed
qed

lemma names_after_markProcessing:
  "set (completedNames (markProcessing ids fs)) \<subseteq> set (completedNames fs)"
  "distinct (map lower (completedNames fs)) \<Longrightarrow> distinct (map lower (completedNames (markProcessing ids fs)))"
  unfolding markProcessing_def
  using completedNames_demote [where fs = fs and lower = lower and
      h = "\<lambda>f. if fileId f \<in> ids then f\<lparr>status := Processing\<rparr>
               else if status f = Processing then f\<lparr>status := Error\<rparr> else f"]
  by simp_all

lemma names_after_zombiesToError:
  "set (completedNames (zombiesToError fs)) \<subseteq> set (completedNames fs)"
  "distinct (map lower (completedNames fs)) \<Longrightarrow> distinct (map lower (completedNames (zombiesToError fs)))"
  unfolding zombiesToError_def
  using completedNames_demote [where fs = fs and lower = lower and
      h = "\<lambda>f. if status f = Processing then f\<lparr>status := Error\<rparr> else f"]
  by simp_all

lemma names_after_failChunk:
  "set (completedNames (failChunk ids fs)) \<subseteq> set (completedNames fs)"
  "distinct (map lower (completedNames fs)) \<Longrightarrow> distinct (map lower (completedNames (failChunk ids fs)))"
  unfolding failChunk_def
  using completedNames_demote [where fs = fs and lower = lower and
      h = "\<lambda>f. if fileId f \<in> ids then f\<lparr>status := Error\<rparr> else f"]
  by simp_all

lemma names_after_delete:
  "set (completedNames (handleDeleteFile delId fs)) \<subseteq> set (completedNames fs)"
  "distinct (map lower (completedNames fs)) \<Longrightarrow> distinct (map lower (completedNames (handleDeleteFile delId fs)))"
  unfolding handleDeleteFile_def
  using completedNames_filter [where P = "\<lambda>f. fileId f \<noteq> delId" and fs = fs and lower = lower]
  by simp_all

lemma all_finished:
  assumes "list_all (\<lambda>c. callPhase c = Finished) (butlast cs)"
    and "cs \<noteq> [] \<longrightarrow> callPhase (last cs) = Finished"
  shows "list_all (\<lambda>c. callPhase c = Finished) cs"
proof (cases cs rule: rev_cases)
  case Nil
  then show ?thesis by simp
next
  case (snoc xs x)
  with assms show ?thesis by simp
qed

lemma unfinished_is_last:
  assumes "list_all (\<lambda>c. callPhase c = Finished) (butlast cs)" "k < length cs"
    and "callPhase (cs ! k) \<noteq> Finished"
  shows "k = length cs - 1 \<and> cs ! k = last cs \<and> cs \<noteq> []"
proof -
  from assms(2) have ne: "cs \<noteq> []" by auto
  have "\<not> k < length (butlast cs)"
  proof
    assume "k < length (butlast cs)"
    with assms(1) have "callPhase (butlast cs ! k) = Finished" by (simp add: list_all_length)
    with \<open>k < length (butlast cs)\<close> assms(3) show False by (simp add: nth_butlast)
  qed
  with assms(2) have k: "k = length cs - 1" by simp
  with ne show ?thesis by (simp add: last_conv_nth)
qed

lemma serialInv_select:
  assumes "serialInv lower s" "step lower chunkSize s (SelectFiles selected) = Some s'"
  shows "serialInv lower s'"
proof (cases "isProcessing s \<or> acceptedFiles selected = []")
  case True
  with assms show ?thesis by auto
next
  case False
  with assms(2) have s': "s' = s\<lparr>files := handleFilesSelected (acceptedFiles selected) (files s)\<rparr>"
    by auto
  from assms(1) show ?thesis
    unfolding s' by (simp add: serialInv_def dedupOk_def completedNames_selected)
qed

lemma serialInv_delete:
  assumes "serialInv lower s" "step lower chunkSize s (DeleteFile delId) = Some s'"
  shows "serialInv lower s'"
proof -
  from assms(2) have s': "s' = s\<lparr>files := handleDeleteFile delId (files s)\<rparr>"
    by (auto split: if_splits)
  from assms(1) names_after_delete(1) [where fs = "files s" and delId = delId]
    names_after_delete(2) [where fs = "files s" and delId = delId and lower = lower]
  show ?thesis
    unfolding s' serialInv_def dedupOk_def by auto
qed

lemma serialInv_start:
  assumes "serialInv lower s" "step lower chunkSize s PressStart = Some s'"
  shows "serialInv lower s'"
proof -
  from assms(2) have s': "s' = s\<lparr>isProcessing := True\<rparr>"
    by (auto simp add: handleStartProcessing_def split: if_splits)
  from assms(1) show ?thesis unfolding s' by (simp add: serialInv_def)
qed

lemma serialInv_restart:
  assumes "serialInv lower s" "step lower chunkSize s PressRestart = Some s'"
  shows "serialInv lower s'"
proof -
  from assms(2) have np: "\<not> isProcessing s"
    and s': "s' = s\<lparr>isProcessing := False, files := [], isRequestInFlight := False\<rparr>"
    by (auto simp add: handleRestart_def split: if_splits)
  from assms(1) np show ?thesis
    unfolding s' by (auto simp add: serialInv_def dedupOk_def completedNames_Nil)
qed

lemma serialInv_batch:
  assumes inv: "serialInv lower s" and run: "isProcessing s" and free: "\<not> isRequestInFlight s"
  shows "serialInv lower (processNextBatch lower chunkSize s)"
proof -
  let ?ids = "set (map fileId (selectChunk chunkSize (files s)))"
  let ?ds = "map chunkDatum (selectChunk chunkSize (files s))"
  let ?call = "\<lparr>callChunkIds = ?ids, callChunkData = ?ds, callItems = itemsToSend ?ds,
                  callUsedNames = collectUsedNames lower (files s), callPhase = AwaitingOracle\<rparr>"
  have s': "processNextBatch lower chunkSize s =
      s\<lparr>files := markProcessing ?ids (files s), isRequestInFlight := True, calls := calls s @ [?call]\<rparr>"
    by (simp add: processNextBatch_def Let_def)
  from inv have d: "distinct (map lower (completedNames (files s)))"
    and ne: "[] \<notin> set (completedNames (files s))"
    and bl: "list_all (\<lambda>c. callPhase c = Finished) (butlast (calls s))"
    by (simp_all add: serialInv_def dedupOk_def)
  from inv free have "calls s \<noteq> [] \<longrightarrow> callPhase (last (calls s)) = Finished"
    by (auto simp add: serialInv_def)
  with bl have fin: "list_all (\<lambda>c. callPhase c = Finished) (calls s)" by (rule all_finished)
  have sub: "set (completedNames (markProcessing ?ids (files s))) \<subseteq> set (completedNames (files s))"
    by (rule names_after_markProcessing)
  have d': "distinct (map lower (completedNames (markProcessing ?ids (files s))))"
    using d by (rule names_after_markProcessing)
  from sub ne have ne': "[] \<notin> set (completedNames (markProcessing ?ids (files s)))" by blast
  from sub collectUsedNames_covers [OF ne, of lower]
  have reg: "lower ` set (completedNames (markProcessing ?ids (files s))) \<subseteq> collectUsedNames lower (files s)"
    by blast
  show ?thesis
    unfolding s' using d' ne' fin reg run by (simp add: serialInv_def dedupOk_def)
qed

lemma serialInv_effect:
  assumes "serialInv lower s" "step lower chunkSize s RunEffect = Some s'"
  shows "serialInv lower s'"
proof -
  from assms(2) have s': "s' = cycleEffect lower chunkSize s" by simp
  show ?thesis
  proof (cases "\<not> isProcessing s \<or> isRequestInFlight s")
    case True
    then have "cycleEffect lower chunkSize s = s" by (auto simp add: cycleEffect_def)
    with assms(1) s' show ?thesis by simp
  next
    case False
    then have run: "isProcessing s" and free: "\<not> isRequestInFlight s" by simp_all
    from assms(1) free have lastfin: "calls s \<noteq> [] \<longrightarrow> callPhase (last (calls s)) = Finished"
      by (auto simp add: serialInv_def)
    show ?thesis
    proof (cases "pendingFiles (files s) = []")
      case False
      with run free have "cycleEffect lower chunkSize s = processNextBatch lower chunkSize s"
        by (simp add: cycleEffect_def)
      with serialInv_batch [OF assms(1) run free] s' show ?thesis by simp
    next
      case True
      show ?thesis
      proof (cases "list_ex (\<lambda>f. status f = Processing) (files s)")
        case True
        with \<open>pendingFiles (files s) = []\<close> run free
        have e: "s' = s\<lparr>files := zombiesToError (files s)\<rparr>"
          unfolding s' by (simp add: cycleEffect_def)
        from assms(1) lastfin names_after_zombiesToError(1) [where fs = "files s"]
          names_after_zombiesToError(2) [where fs = "files s" and lower = lower]
        show ?thesis
          unfolding e serialInv_def dedupOk_def by auto
      next
        case False
        with \<open>pendingFiles (files s) = []\<close> run free
        have e: "s' = s\<lparr>isProcessing := False\<rparr>"
          unfolding s' by (simp add: cycleEffect_def)
        from assms(1) lastfin show ?thesis
          unfolding e serialInv_def by auto
      qed
    qed
  qed
qed

lemma serialInv_settle:
  assumes inv: "serialInv lower s" and st: "step lower chunkSize s (OracleSettles k result) = Some s'"
  shows "serialInv lower s'"
proof -
  from st have k: "k < length (calls s)" and ph: "callPhase (calls s ! k) = AwaitingOracle"
    by (auto split: if_splits)
  from st k ph obtain fs where
    fs: "settleFiles lower (calls s ! k) result (files s) = Some fs"
    and s': "s' = s\<lparr>files := fs, calls := (calls s)[k := (calls s ! k)\<lparr>callPhase := CoolingDown\<rparr>]\<rparr>"
    by (auto split: option.splits)
  from inv have d: "dedupOk lower (files s)" and ne: "[] \<notin> set (completedNames (files s))"
    and bl: "list_all (\<lambda>c. callPhase c = Finished) (butlast (calls s))"
    by (simp_all add: serialInv_def)
  from ph have "callPhase (calls s ! k) \<noteq> Finished" by simp
  from unfinished_is_last [OF bl k this]
  have kl: "k = length (calls s) - 1" and cl: "calls s ! k = last (calls s)" and cne: "calls s \<noteq> []"
    by blast+
  from inv cne ph cl have guard: "isRequestInFlight s" "isProcessing s"
    and reg: "lower ` set (completedNames (files s)) \<subseteq> callUsedNames (calls s ! k)"
    by (simp_all add: serialInv_def)
  have files': "dedupOk lower fs \<and> [] \<notin> set (completedNames fs)"
  proof (cases result)
    case (Inr results)
    with fs obtain used' where
      m: "mergeFiles lower (callChunkIds (calls s ! k)) (callChunkData (calls s ! k)) results
            (callUsedNames (calls s ! k)) (files s) = Some (fs, used')"
      by (auto simp add: settleFiles_def)
    from merge_keeps_dedup [OF m d reg] mergeFiles_nonempty_names [OF m ne] show ?thesis by simp
  next
    case (Inl e)
    with fs have "fs = failChunk (callChunkIds (calls s ! k)) (files s)"
      by (simp add: settleFiles_def)
    with d ne names_after_failChunk(1) [where fs = "files s" and ids = "callChunkIds (calls s ! k)"]
      names_after_failChunk(2) [where fs = "files s" and ids = "callChunkIds (calls s ! k)" and lower = lower]
    show ?thesis by (auto simp add: dedupOk_def)
  qed
  have bl': "butlast ((calls s)[k := (calls s ! k)\<lparr>callPhase := CoolingDown\<rparr>]) = butlast (calls s)"
    using kl by (simp add: butlast_list_update)
  have last': "last ((calls s)[k := (calls s ! k)\<lparr>callPhase := CoolingDown\<rparr>]) =
               (calls s ! k)\<lparr>callPhase := CoolingDown\<rparr>"
    using kl cne by (simp add: last_list_update)
  show ?thesis
    unfolding s' using files' bl guard cne by (simp add: serialInv_def bl' last')
qed

lemma serialInv_cooldown:
  assumes inv: "serialInv lower s" and st: "step lower chunkSize s (CooldownEnds k) = Some s'"
  shows "serialInv lower s'"
proof -
  from st have k: "k < length (calls s)" and ph: "callPhase (calls s ! k) = CoolingDown"
    and s': "s' = s\<lparr>isRequestInFlight := False, batchTick := batchTick s + 1,
                   calls := (calls s)[k := (calls s ! k)\<lparr>callPhase := Finished\<rparr>]\<rparr>"
    by (auto split: if_splits)
  from inv have bl: "list_all (\<lambda>c. callPhase c = Finished) (butlast (calls s))"
    by (simp add: serialInv_def)
  from ph have "callPhase (calls s ! k) \<noteq> Finished" by simp
  from unfinished_is_last [OF bl k this]
  have kl: "k = length (calls s) - 1" and cne: "calls s \<noteq> []" by blast+
  have bl': "butlast ((calls s)[k := (calls s ! k)\<lparr>callPhase := Finished\<rparr>]) = butlast (calls s)"
    using kl by (simp add: butlast_list_update)
  have last': "last ((calls s)[k := (calls s ! k)\<lparr>callPhase := Finished\<rparr>]) =
               (calls s ! k)\<lparr>callPhase := Finished\<rparr>"
    using kl cne by (simp add: last_list_update)
  from inv show ?thesis
    unfolding s' by (simp add: serialInv_def bl' last')
qed

lemma serialInv_step:
  assumes "serialInv lower s" "e \<noteq> PressStop" "step lower chunkSize s e = Some s'"
  shows "serialInv lower s'"
proof (cases e)
  case (SelectFiles selected)
  with assms show ?thesis using serialInv_select by blast
next
  case (DeleteFile delId)
  with assms show ?thesis using serialInv_delete by blast
next
  case PressStart
  with assms show ?thesis using serialInv_start by blast
next
  case PressStop
  with assms show ?thesis by simp
next
  case PressRestart
  with assms show ?thesis using serialInv_restart by blast
next
  case RunEffect
  with assms show ?thesis using serialInv_effect by blast
next
  case (OracleSettles k result)
  with assms show ?thesis using serialInv_settle by blast
next
  case (CooldownEnds k)
  with assms show ?thesis using serialInv_cooldown by blast
qed

lemma serialInv_run:
  "serialInv lower s \<Longrightarrow> PressStop \<notin> set es \<Longrightarrow> run lower chunkSize s es = Some s' \<Longrightarrow>
   serialInv lower s'"
proof (induction es arbitrary: s)
  case Nil
  then show ?case by simp
next
  case (Cons e es)
  from Cons.prems(3) obtain s1 where
    s1: "step lower chunkSize s e = Some s1" and rest: "run lower chunkSize s1 es = Some s'"
    by (auto split: option.splits)
  from Cons.prems(2) have "e \<noteq> PressStop" "PressStop \<notin> set es" by auto
  with serialInv_step [OF Cons.prems(1) _ s1] Cons.IH [OF _ _ rest] show ?case by blast
qed

lemma serialInv_initial: "serialInv lower initialState"
  by (simp add: serialInv_def initialState_def dedupOk_def completedNames_Nil)

text \<open>
  In every run from the empty state in which stop is never pressed, whatever the oracle
  answers and whatever is uploaded, deleted or restarted in between, no two Completed records
  share a name up to case.
\<close>

lemma dedup_without_stop:
  assumes "PressStop \<notin> set es" "run lower chunkSize initialState es = Some s"
  shows "dedupOk lower (files s)"
  using serialInv_run [OF serialInv_initial assms] by (simp add: serialInv_def)

section \<open>The dedup invariant under overlapping calls\<close>

text \<open>
  Claim C1, on a run the code can make. The invariant holds as long as stop is not pressed
  (lemma \<open>dedup_without_stop\<close>), not at every point in time. The registry of a call is built
  when the call starts, not when its answer is merged, and the merge writes to every record of
  its chunk whatever its status. Stop frees the in-flight guard while a call is still out, so a second
  call for the same record and then, after the first answer, a third call for a new record
  can be out together. The late second answer gives the record a a name the registry of the
  third call has never seen, and the third answer gives the same name to b: two Completed
  records with one name.
\<close>

theorem dedup_broken_by_overlapping_calls:
  "map_option (\<lambda>s. (map status (files s), map newName (files s)))
     (run asciiLower CHUNK_SIZE initialState raceTrace) =
     Some ([Completed, Completed],
           [Some (js ''House--'' @ [0x9996, 0x9875] @ js ''--app.png''),
            Some (js ''House--'' @ [0x9996, 0x9875] @ js ''--app.png'')]) \<and>
   map_option (\<lambda>s. dedupOk asciiLower (files s)) (run asciiLower CHUNK_SIZE initialState raceTrace) =
     Some False"
  by (simp add: raceTrace_def stoppedTrace_def resultHomeA_def resultHouseA_def resultHouseB_def
      dedupOk_def completedNames_def run_eval sanitize_eval resolve_eval)

end
